theory Spec2Isabelle
  imports Main "HOL-Library.Word" "HOL-Library.Signed_Division"
begin

chapter \<open>Sequences of integers over Go channels\<close>

text \<open>
  \<open>iter.go\<close> builds lazy sequences from unbuffered channels: every source and every
  combinator runs in a goroutine of its own and hands its elements to the next one.
  This theory models the goroutines and the scheduler, shows that the schedule does not
  matter, and then states what each function of \<open>iter.go\<close> and the helper \<open>isPrime\<close> of
  \<open>main.go\<close> computes.
\<close>

section \<open>Elements\<close>

text \<open>
  The element type of an \<open>Iter\<close> is Go's \<open>int\<close>: a signed machine integer, 64 bits wide on
  the usual targets. Arithmetic wraps around, comparisons are signed, and \<open>%\<close> is the
  truncating remainder (\<open>smod\<close>), which panics on a zero divisor.
\<close>

type_synonym int64 = "64 word"

section \<open>Goroutines\<close>

text \<open>
  Every function of \<open>iter.go\<close> that returns an \<open>Iter\<close> makes an unbuffered channel and
  starts one goroutine that sends on it; \<open>Reduce\<close> and \<open>Collect\<close> run their loop in the
  calling goroutine. A goroutine is modelled by the point of its body at which it waits,
  together with its local variables. Between two channel operations a goroutine only
  computes on its own variables, so these computations are folded into the operation
  that precedes them.

  \<^item> \<open>RangeLoop i to\<close>: \<open>Range\<close> at the test \<open>i < to\<close> of its loop.
  \<^item> \<open>SeqLoop n\<close>: \<open>Seq\<close> at \<open>ch <- n\<close>.
  \<^item> \<open>EmitLoop xs\<close>: the producer of an arbitrary finite sequence, which still has to send
    the elements \<open>xs\<close> and then closes its channel (\<open>makeIter\<close> of \<open>iter_test.go\<close>, for
    any elements instead of \<open>0, ..., max - 1\<close>).
  \<^item> \<open>MapRecv fn\<close>, \<open>FilterRecv pred\<close>, \<open>TakeRecv count n\<close>, \<open>DropRecv count n\<close>: the
    goroutine of the combinator at \<open>for x := range it\<close>.
  \<^item> \<open>MapSend fn y\<close>, \<open>FilterSend pred x\<close>, \<open>TakeSend count n x\<close>, \<open>DropSend count n x\<close>: the
    same goroutine at its \<open>ch <- ...\<close>.
  \<^item> \<open>Closing\<close>: the loop of a combinator is left and the deferred \<open>close(ch)\<close> is due.
  \<^item> \<open>Exited\<close>: the goroutine has closed its channel and returned.
  \<^item> \<open>ReduceLoop acc fn\<close>, \<open>CollectLoop s\<close>: the caller at \<open>for x := range it\<close>;
    \<open>ReduceDone acc\<close>, \<open>CollectDone s\<close>: the caller has returned that value.
\<close>

datatype goroutine =
    RangeLoop int64 int64
  | SeqLoop int64
  | EmitLoop "int64 list"
  | MapRecv "int64 \<Rightarrow> int64"
  | MapSend "int64 \<Rightarrow> int64" int64
  | FilterRecv "int64 \<Rightarrow> bool"
  | FilterSend "int64 \<Rightarrow> bool" int64
  | TakeRecv int64 int64
  | TakeSend int64 int64 int64
  | DropRecv int64 int64
  | DropSend int64 int64 int64
  | Closing
  | Exited
  | ReduceLoop int64 "int64 \<Rightarrow> int64 \<Rightarrow> int64"
  | ReduceDone int64
  | CollectLoop "int64 list"
  | CollectDone "int64 list"

text \<open>The channel operation a goroutine is waiting to perform.\<close>

datatype pending = Send int64 | Recv | Close | Nothing

fun pending_op :: "goroutine \<Rightarrow> pending" where
  "pending_op (RangeLoop i to) = (if i <s to then Send i else Close)"
| "pending_op (SeqLoop n) = Send n"
| "pending_op (EmitLoop []) = Close"
| "pending_op (EmitLoop (x # xs)) = Send x"
| "pending_op (MapRecv fn) = Recv"
| "pending_op (MapSend fn y) = Send y"
| "pending_op (FilterRecv pred) = Recv"
| "pending_op (FilterSend pred x) = Send x"
| "pending_op (TakeRecv count n) = Recv"
| "pending_op (TakeSend count n x) = Send x"
| "pending_op (DropRecv count n) = Recv"
| "pending_op (DropSend count n x) = Send x"
| "pending_op Closing = Close"
| "pending_op Exited = Nothing"
| "pending_op (ReduceLoop acc fn) = Recv"
| "pending_op (ReduceDone acc) = Nothing"
| "pending_op (CollectLoop s) = Recv"
| "pending_op (CollectDone s) = Nothing"

text \<open>The goroutine after its send has been taken by the receiver.\<close>

fun after_send :: "goroutine \<Rightarrow> goroutine" where
  "after_send (RangeLoop i to) = RangeLoop (i + 1) to"
| "after_send (SeqLoop n) = SeqLoop (n + 1)"
| "after_send (EmitLoop xs) = EmitLoop (tl xs)"
| "after_send (MapSend fn y) = MapRecv fn"
| "after_send (FilterSend pred x) = FilterRecv pred"
| "after_send (TakeSend count n x) = TakeRecv (count + 1) n"
| "after_send (DropSend count n x) = DropRecv count n"
| "after_send g = g"

text \<open>
  The goroutine after \<open>range it\<close> has delivered \<open>Some x\<close>, or \<open>None\<close> when the channel is
  closed and the loop ends.
\<close>

fun after_recv :: "goroutine \<Rightarrow> int64 option \<Rightarrow> goroutine" where
  "after_recv (MapRecv fn) (Some x) = MapSend fn (fn x)"
| "after_recv (MapRecv fn) None = Closing"
| "after_recv (FilterRecv pred) (Some x) = (if pred x then FilterSend pred x else FilterRecv pred)"
| "after_recv (FilterRecv pred) None = Closing"
| "after_recv (TakeRecv count n) (Some x) = (if count <s n then TakeSend count n x else Closing)"
| "after_recv (TakeRecv count n) None = Closing"
| "after_recv (DropRecv count n) (Some x) = (if count <s n then DropRecv (count + 1) n else DropSend count n x)"
| "after_recv (DropRecv count n) None = Closing"
| "after_recv (ReduceLoop acc fn) (Some x) = ReduceLoop (fn acc x) fn"
| "after_recv (ReduceLoop acc fn) None = ReduceDone acc"
| "after_recv (CollectLoop s) (Some x) = CollectLoop (s @ [x])"
| "after_recv (CollectLoop s) None = CollectDone s"
| "after_recv g r = g"

fun exited :: "goroutine \<Rightarrow> bool" where
  "exited Exited = True"
| "exited g = False"

section \<open>Pipelines\<close>

text \<open>
  A pipeline is the list of its goroutines from the source to the caller; the channel
  made by goroutine \<open>i\<close> is read by goroutine \<open>i + 1\<close> only. The channels are unbuffered:
  a send and a receive happen together, and a receive on a closed channel ends the
  \<open>range\<close> loop. \<open>step i\<close> is the move that goroutine \<open>i\<close> makes when the scheduler lets
  it: hand its value to its reader, close its channel, or see its input closed.
\<close>

type_synonym pipeline = "goroutine list"

definition step :: "nat \<Rightarrow> pipeline \<Rightarrow> pipeline option" where
  "step i ps =
     (case pending_op (ps ! i) of
        Send v \<Rightarrow>
          if Suc i < length ps \<and> pending_op (ps ! Suc i) = Recv
          then Some (ps[i := after_send (ps ! i), Suc i := after_recv (ps ! Suc i) (Some v)])
          else None
      | Close \<Rightarrow> Some (ps[i := Exited])
      | Recv \<Rightarrow>
          if 0 < i \<and> exited (ps ! (i - 1))
          then Some (ps[i := after_recv (ps ! i) None])
          else None
      | Nothing \<Rightarrow> None)"

text \<open>One move of the pipeline: the scheduler picks a goroutine that can move.\<close>

definition moves :: "pipeline \<Rightarrow> pipeline \<Rightarrow> bool" where
  "moves ps qs = (\<exists>i<length ps. step i ps = Some qs)"

text \<open>No goroutine can move: each one has returned or is blocked for good.\<close>

definition quiescent :: "pipeline \<Rightarrow> bool" where
  "quiescent ps = list_all (\<lambda>i. Option.is_none (step i ps)) [0..<length ps]"

text \<open>
  \<open>ends_in ps qs\<close>: whatever the scheduler does, the pipeline \<open>ps\<close> comes to rest after
  finitely many moves, and it does so in the state \<open>qs\<close>.
\<close>

inductive ends_in :: "pipeline \<Rightarrow> pipeline \<Rightarrow> bool" where
  rest: "quiescent ps \<Longrightarrow> ends_in ps ps"
| move: "\<not> quiescent ps \<Longrightarrow> (\<And>ps'. moves ps ps' \<Longrightarrow> ends_in ps' qs) \<Longrightarrow> ends_in ps qs"

text \<open>What the caller, the last goroutine of the pipeline, has returned.\<close>

datatype result = Slice "int64 list" | Value int64

fun returned :: "goroutine \<Rightarrow> result option" where
  "returned (CollectDone s) = Some (Slice s)"
| "returned (ReduceDone acc) = Some (Value acc)"
| "returned g = None"

definition outcome :: "pipeline \<Rightarrow> result option" where
  "outcome ps = (if ps = [] then None else returned (last ps))"

definition returns :: "pipeline \<Rightarrow> result \<Rightarrow> bool" where
  "returns ps r = (\<exists>qs. ends_in ps qs \<and> outcome qs = Some r)"

text \<open>
  A schedule is the list of the goroutines that the scheduler lets move, one after the
  other. A goroutine that is picked while it cannot move stays where it is.
\<close>

fun exec :: "nat list \<Rightarrow> pipeline \<Rightarrow> pipeline" where
  "exec [] ps = ps"
| "exec (i # sched) ps =
     (if i < length ps
      then (case step i ps of None \<Rightarrow> exec sched ps | Some qs \<Rightarrow> exec sched qs)
      else exec sched ps)"

text \<open>
  One scheduler among all: always the first goroutine that can move, for at most
  \<open>fuel\<close> moves.
\<close>

definition first_move :: "pipeline \<Rightarrow> pipeline option" where
  "first_move ps = (case List.map_filter (\<lambda>i. step i ps) [0..<length ps] of [] \<Rightarrow> None | qs # _ \<Rightarrow> Some qs)"

fun run :: "nat \<Rightarrow> pipeline \<Rightarrow> pipeline" where
  "run 0 ps = ps"
| "run (Suc fuel) ps = (case first_move ps of None \<Rightarrow> ps | Some qs \<Rightarrow> run fuel qs)"

section \<open>The functions of \<open>iter.go\<close>\<close>

text \<open>
  An \<open>Iter\<close> is a channel; it is modelled by the goroutines that feed it, its own sender
  last. A combinator starts its goroutine behind them; \<open>Reduce\<close> and \<open>Collect\<close> put the
  caller there and make the pipeline complete.
\<close>

type_synonym Iter = "goroutine list"

definition Map :: "Iter \<Rightarrow> (int64 \<Rightarrow> int64) \<Rightarrow> Iter" where
  "Map it fn = it @ [MapRecv fn]"

definition Filter :: "Iter \<Rightarrow> (int64 \<Rightarrow> bool) \<Rightarrow> Iter" where
  "Filter it pred = it @ [FilterRecv pred]"

definition Reduce :: "Iter \<Rightarrow> int64 \<Rightarrow> (int64 \<Rightarrow> int64 \<Rightarrow> int64) \<Rightarrow> pipeline" where
  "Reduce it init fn = it @ [ReduceLoop init fn]"

definition Range_it :: "int64 \<Rightarrow> int64 \<Rightarrow> Iter" where
  "Range_it from to = [RangeLoop from to]"

definition Seq :: Iter where
  "Seq = [SeqLoop 0]"

definition Take :: "Iter \<Rightarrow> int64 \<Rightarrow> Iter" where
  "Take it n = it @ [TakeRecv 0 n]"

definition Drop :: "Iter \<Rightarrow> int64 \<Rightarrow> Iter" where
  "Drop it n = it @ [DropRecv 0 n]"

definition Collect_it :: "Iter \<Rightarrow> pipeline" where
  "Collect_it it = it @ [CollectLoop []]"

text \<open>
  A finite sequence \<open>S\<close> with the elements \<open>xs\<close>: a channel on which \<open>xs\<close> is sent in
  order and which is then closed.
\<close>

definition finite_seq :: "int64 list \<Rightarrow> Iter" where
  "finite_seq xs = [EmitLoop xs]"

text \<open>
  The sender of a finite sequence once its reader has gone: it has returned if nothing
  was left to send, and is blocked in its send for good otherwise.
\<close>

definition leftover :: "int64 list \<Rightarrow> goroutine" where
  "leftover xs = (if xs = [] then Exited else EmitLoop xs)"

text \<open>
  \<open>tail_gives T rest r\<close>: the goroutines \<open>T\<close>, the first of which reads a channel that
  still delivers the elements \<open>rest\<close> and is then closed, can come to rest with the caller
  having returned \<open>r\<close>. Either \<open>T\<close> comes to rest without another receive, or its first
  goroutine receives the next element, or it sees the channel closed.
\<close>

inductive tail_gives :: "goroutine list \<Rightarrow> int64 list \<Rightarrow> result \<Rightarrow> bool" where
  stop: "moves\<^sup>*\<^sup>* T T' \<Longrightarrow> quiescent T' \<Longrightarrow> T' \<noteq> [] \<Longrightarrow> pending_op (hd T') \<noteq> Recv \<Longrightarrow>
     outcome T' = Some r \<Longrightarrow> tail_gives T rest r"
| elem: "pending_op b = Recv \<Longrightarrow> moves\<^sup>*\<^sup>* (after_recv b (Some v) # T0) T1 \<Longrightarrow>
     tail_gives T1 rest r \<Longrightarrow> tail_gives (b # T0) (v # rest) r"
| eof: "pending_op b = Recv \<Longrightarrow> moves\<^sup>*\<^sup>* (after_recv b None # T0) T' \<Longrightarrow> quiescent T' \<Longrightarrow>
     T' \<noteq> [] \<Longrightarrow> pending_op (hd T') \<noteq> Recv \<Longrightarrow> outcome T' = Some r \<Longrightarrow>
     tail_gives (b # T0) [] r"

text \<open>
  \<open>closed_in S qs\<close>: in the state \<open>qs\<close> of a pipeline that begins with the goroutines of
  \<open>S\<close>, the sender of \<open>S\<close> has closed the channel and returned.
\<close>

definition closed_in :: "Iter \<Rightarrow> pipeline \<Rightarrow> bool" where
  "closed_in S qs = (S \<noteq> [] \<and> exited (qs ! (length S - 1)))"

text \<open>
  The sequences that never close: \<open>Seq()\<close>, and every \<open>Map\<close>, \<open>Filter\<close> and \<open>Drop\<close> of
  one. Their goroutines are those of \<open>Seq\<close>, \<open>Map\<close>, \<open>Filter\<close> and \<open>Drop\<close> inside their
  loops.
\<close>

inductive endless :: "Iter \<Rightarrow> bool" where
  "endless Seq"
| "endless S \<Longrightarrow> endless (Map S fn)"
| "endless S \<Longrightarrow> endless (Filter S pred)"
| "endless S \<Longrightarrow> endless (Drop S n)"

fun flowing :: "goroutine \<Rightarrow> bool" where
  "flowing (SeqLoop n) = True"
| "flowing (MapRecv fn) = True"
| "flowing (MapSend fn y) = True"
| "flowing (FilterRecv pred) = True"
| "flowing (FilterSend pred x) = True"
| "flowing (DropRecv count n) = True"
| "flowing (DropSend count n x) = True"
| "flowing g = False"

text \<open>The caller inside the loop of \<open>Reduce\<close> or \<open>Collect\<close>.\<close>

fun caller_loop :: "goroutine \<Rightarrow> bool" where
  "caller_loop (ReduceLoop acc fn) = True"
| "caller_loop (CollectLoop s) = True"
| "caller_loop g = False"

section \<open>The helper \<open>isPrime\<close> of \<open>main.go\<close>\<close>

text \<open>
  Go's \<open>x % y\<close> on \<open>int\<close>: the remainder of the division that truncates towards zero.
  It panics for \<open>y = 0\<close>, which the caller has to test first.
\<close>

definition rem :: "int64 \<Rightarrow> int64 \<Rightarrow> int64" where
  "rem x y = word_of_int (sint x smod sint y)"

text \<open>
  The loop \<open>for i := 2; i*i <= n; i++\<close> of \<open>isPrime\<close>, entered with the current \<open>i\<close>.
  The product \<open>i*i\<close> wraps around and the comparison is signed. \<open>None\<close> is the panic
  of \<open>n%i\<close> for \<open>i = 0\<close>.
\<close>

function isPrime_loop :: "int64 \<Rightarrow> int64 \<Rightarrow> bool option" where
  "isPrime_loop n i =
     (if i * i <=s n
      then (if i = 0 then None
            else if rem n i = 0 then Some False
            else isPrime_loop n (i + 1))
      else Some True)"
  by pat_completeness auto
termination
proof (relation "measure (\<lambda>(n, i). unat (- i))")
  show "wf (measure (\<lambda>(n :: int64, i :: int64). unat (- i)))" by simp
next
  fix n i :: int64
  assume "i \<noteq> 0"
  then have "- i \<noteq> 0" by simp
  then have "unat (- i - 1) = unat (- i) - 1" "unat (- i) \<noteq> 0"
    by (simp_all add: unat_minus_one unat_eq_0)
  then show "((n, i + 1), (n, i)) \<in> measure (\<lambda>(n, i). unat (- i))"
    by simp
qed

declare isPrime_loop.simps [simp del]

definition isPrime :: "int64 \<Rightarrow> bool option" where
  "isPrime n = isPrime_loop n 2"

section \<open>The examples of \<open>main.go\<close>\<close>

definition squares :: "int64 \<Rightarrow> pipeline" where
  "squares n = Collect_it (Map (Range_it 1 (n + 1)) (\<lambda>x. x * x))"

definition fac :: "int64 \<Rightarrow> pipeline" where
  "fac n = Reduce (Range_it 1 (n + 1)) 1 (\<lambda>acc cur. acc * cur)"

text \<open>\<open>Filter\<close> is handed \<open>isPrime\<close>, which never panics (\<open>isPrime_never_panics\<close> below).\<close>

definition primes :: "int64 \<Rightarrow> pipeline" where
  "primes n = Collect_it (Take (Filter (Drop Seq 2) (\<lambda>x. isPrime x = Some True)) n)"

section \<open>All schedules agree\<close>

lemma step_length: "step i ps = Some qs \<Longrightarrow> length qs = length ps"
  by (auto simp: step_def split: pending.splits if_splits)

lemma pending_exited: "exited g \<Longrightarrow> pending_op g = Nothing"
  by (cases g) auto

lemma step_Send:
  "pending_op (ps ! i) = Send v \<Longrightarrow>
   step i ps = (if Suc i < length ps \<and> pending_op (ps ! Suc i) = Recv
     then Some (ps[i := after_send (ps ! i), Suc i := after_recv (ps ! Suc i) (Some v)])
     else None)"
  by (simp add: step_def)

lemma step_Close: "pending_op (ps ! i) = Close \<Longrightarrow> step i ps = Some (ps[i := Exited])"
  by (simp add: step_def)

lemma step_Recv:
  "pending_op (ps ! i) = Recv \<Longrightarrow>
   step i ps = (if 0 < i \<and> exited (ps ! (i - 1)) then Some (ps[i := after_recv (ps ! i) None]) else None)"
  by (simp add: step_def)

lemma step_Nothing: "pending_op (ps ! i) = Nothing \<Longrightarrow> step i ps = None"
  by (simp add: step_def)

lemma step_diamond_lt:
  assumes ij: "i < j" and j: "j < length ps"
    and a: "step i ps = Some a" and b: "step j ps = Some b"
  shows "\<exists>c. step j a = Some c \<and> step i b = Some c"
proof (cases "pending_op (ps ! i)")
  case (Send v)
  with a have i1: "Suc i < length ps" and r: "pending_op (ps ! Suc i) = Recv"
    and a': "a = ps[i := after_send (ps ! i), Suc i := after_recv (ps ! Suc i) (Some v)]"
    by (auto simp: step_Send split: if_splits)
  have ne: "j \<noteq> Suc i"
  proof
    assume "j = Suc i"
    with b r Send show False by (auto simp: step_Recv pending_exited split: if_splits)
  qed
  with ij have lt: "Suc i < j" by simp
  show ?thesis
  proof (cases "pending_op (ps ! j)")
    case (Send w)
    with b have "Suc j < length ps" "pending_op (ps ! Suc j) = Recv"
      "b = ps[j := after_send (ps ! j), Suc j := after_recv (ps ! Suc j) (Some w)]"
      by (auto simp: step_Send split: if_splits)
    with lt i1 r a' \<open>pending_op (ps ! i) = Send v\<close> Send show ?thesis
      by (simp add: step_Send list_update_swap)
  next
    case Recv
    with b have "exited (ps ! (j - 1))" "b = ps[j := after_recv (ps ! j) None]"
      by (auto simp: step_Recv split: if_splits)
    moreover have "j - 1 \<noteq> Suc i" using \<open>exited (ps ! (j - 1))\<close> r by (auto simp: pending_exited)
    ultimately show ?thesis using lt i1 r a' \<open>pending_op (ps ! i) = Send v\<close> Recv j
      by (simp add: step_Send step_Recv list_update_swap)
  next
    case Close
    with b have "b = ps[j := Exited]" by (simp add: step_Close)
    then show ?thesis using lt i1 r a' \<open>pending_op (ps ! i) = Send v\<close> Close j
      by (simp add: step_Send step_Close list_update_swap)
  next
    case Nothing
    with b show ?thesis by (simp add: step_Nothing)
  qed
next
  case Recv
  with a have e: "exited (ps ! (i - 1))" "0 < i" and a': "a = ps[i := after_recv (ps ! i) None]"
    by (auto simp: step_Recv split: if_splits)
  show ?thesis
  proof (cases "pending_op (ps ! j)")
    case (Send w)
    with b have "Suc j < length ps" "pending_op (ps ! Suc j) = Recv"
      "b = ps[j := after_send (ps ! j), Suc j := after_recv (ps ! Suc j) (Some w)]"
      by (auto simp: step_Send split: if_splits)
    with ij e a' \<open>pending_op (ps ! i) = Recv\<close> Send show ?thesis
      by (simp add: step_Send step_Recv list_update_swap)
  next
    case r2: Recv
    with b have "exited (ps ! (j - 1))" "b = ps[j := after_recv (ps ! j) None]"
      by (auto simp: step_Recv split: if_splits)
    moreover have "j - 1 \<noteq> i" using \<open>exited (ps ! (j - 1))\<close> Recv by (auto simp: pending_exited)
    ultimately show ?thesis using ij e a' Recv r2 j
      by (simp add: step_Recv list_update_swap)
  next
    case Close
    with b have "b = ps[j := Exited]" by (simp add: step_Close)
    then show ?thesis using ij e a' Recv Close j
      by (simp add: step_Recv step_Close list_update_swap)
  next
    case Nothing
    with b show ?thesis by (simp add: step_Nothing)
  qed
next
  case Close
  with a have a': "a = ps[i := Exited]" by (simp add: step_Close)
  show ?thesis
  proof (cases "pending_op (ps ! j)")
    case (Send w)
    with b have "Suc j < length ps" "pending_op (ps ! Suc j) = Recv"
      "b = ps[j := after_send (ps ! j), Suc j := after_recv (ps ! Suc j) (Some w)]"
      by (auto simp: step_Send split: if_splits)
    with ij a' Close Send show ?thesis
      by (simp add: step_Send step_Close list_update_swap)
  next
    case Recv
    with b have ex: "exited (ps ! (j - 1))" "b = ps[j := after_recv (ps ! j) None]"
      by (auto simp: step_Recv split: if_splits)
    moreover have "j - 1 \<noteq> i" using \<open>exited (ps ! (j - 1))\<close> Close by (auto simp: pending_exited)
    ultimately show ?thesis using ij a' Recv Close j
      by (simp add: step_Recv step_Close list_update_swap)
  next
    case c2: Close
    with b have "b = ps[j := Exited]" by (simp add: step_Close)
    then show ?thesis using ij a' Close c2 j
      by (simp add: step_Close list_update_swap)
  next
    case Nothing
    with b show ?thesis by (simp add: step_Nothing)
  qed
next
  case Nothing
  with a show ?thesis by (simp add: step_Nothing)
qed


lemma step_diamond:
  assumes "i \<noteq> j" "i < length ps" "j < length ps" "step i ps = Some a" "step j ps = Some b"
  shows "\<exists>c. step j a = Some c \<and> step i b = Some c"
proof (cases "i < j")
  case True
  with assms show ?thesis by (simp add: step_diamond_lt)
next
  case False
  with assms have "j < i" by simp
  from step_diamond_lt [OF this assms(2) assms(5) assms(4)] show ?thesis by blast
qed

lemma movesI: "i < length ps \<Longrightarrow> step i ps = Some qs \<Longrightarrow> moves ps qs"
  by (auto simp: moves_def)

lemma moves_length: "moves ps qs \<Longrightarrow> length qs = length ps"
  by (auto simp: moves_def step_length)

lemma moves_diamond:
  assumes "moves ps a" "moves ps b"
  shows "a = b \<or> (\<exists>c. moves a c \<and> moves b c)"
proof -
  from assms obtain i j where i: "i < length ps" "step i ps = Some a"
    and j: "j < length ps" "step j ps = Some b"
    by (auto simp: moves_def)
  show ?thesis
  proof (cases "i = j")
    case True
    with i j show ?thesis by simp
  next
    case False
    from step_diamond [OF False i(1) j(1) i(2) j(2)]
    obtain c where c: "step j a = Some c" "step i b = Some c" by blast
    from i(2) j(2) have "length a = length ps" "length b = length ps"
      by (simp_all add: step_length)
    with c i(1) j(1) have "moves a c" "moves b c" by (auto intro: movesI)
    then show ?thesis by blast
  qed
qed

lemma quiescent_iff: "quiescent ps \<longleftrightarrow> (\<forall>i<length ps. step i ps = None)"
  by (auto simp: quiescent_def list_all_iff Option.is_none_def)

lemma quiescent_no_moves: "quiescent ps \<longleftrightarrow> (\<forall>qs. \<not> moves ps qs)"
  unfolding quiescent_iff moves_def by (metis not_Some_eq option.distinct(1))

text \<open>
  If some schedule brings the pipeline to rest in \<open>n\<close> moves, every move is one of \<open>n\<close>
  moves to that state.
\<close>

lemma moves_descent:
  "(moves ^^ n) a z \<Longrightarrow> quiescent z \<Longrightarrow> moves a b \<Longrightarrow> \<exists>m. n = Suc m \<and> (moves ^^ m) b z"
proof (induction n arbitrary: a b)
  case 0
  then show ?case by (simp add: quiescent_no_moves)
next
  case (Suc n)
  from relpowp_Suc_D2 [OF Suc.prems(1)] obtain c where c: "moves a c" "(moves ^^ n) c z"
    by blast
  from moves_diamond [OF Suc.prems(3) c(1)] show ?case
  proof
    assume "b = c"
    with c show ?thesis by simp
  next
    assume "\<exists>d. moves b d \<and> moves c d"
    then obtain d where d: "moves b d" "moves c d" by blast
    from Suc.IH [OF c(2) Suc.prems(2) d(2)] obtain m where m: "n = Suc m" "(moves ^^ m) d z"
      by blast
    from d(1) m(2) have "(moves ^^ Suc m) b z" by (rule relpowp_Suc_I2)
    with m(1) show ?thesis by simp
  qed
qed

lemma relpow_ends_in: "(moves ^^ n) a z \<Longrightarrow> quiescent z \<Longrightarrow> ends_in a z"
proof (induction n arbitrary: a)
  case 0
  then show ?case by (simp add: ends_in.rest)
next
  case (Suc n)
  from relpowp_Suc_D2 [OF Suc.prems(1)] obtain c where c: "moves a c" by blast
  then have nq: "\<not> quiescent a" by (auto simp: quiescent_no_moves)
  show ?case
  proof (rule ends_in.move [OF nq])
    fix b
    assume "moves a b"
    from moves_descent [OF Suc.prems(1) Suc.prems(2) this] have "(moves ^^ n) b z" by simp
    then show "ends_in b z" using Suc.prems(2) by (rule Suc.IH)
  qed
qed

lemma schedule_ends_in: "moves\<^sup>*\<^sup>* a z \<Longrightarrow> quiescent z \<Longrightarrow> ends_in a z"
  by (auto dest: rtranclp_imp_relpowp intro: relpow_ends_in)

lemma ends_in_quiescent: "ends_in a z \<Longrightarrow> quiescent z"
proof (induction rule: ends_in.induct)
  case (rest ps)
  then show ?case .
next
  case (move ps qs)
  from move.hyps(1) obtain ps' where "moves ps ps'" by (auto simp: quiescent_no_moves)
  then show ?case by (rule move.IH)
qed

lemma ends_in_reaches: "ends_in a z \<Longrightarrow> moves\<^sup>*\<^sup>* a z"
proof (induction rule: ends_in.induct)
  case (rest ps)
  then show ?case by simp
next
  case (move ps qs)
  from move.hyps(1) obtain ps' where "moves ps ps'" by (auto simp: quiescent_no_moves)
  with move.IH show ?case by (blast intro: converse_rtranclp_into_rtranclp)
qed

lemma ends_in_maximal: "ends_in a z \<Longrightarrow> moves\<^sup>*\<^sup>* a b \<Longrightarrow> quiescent b \<Longrightarrow> b = z"
proof (induction rule: ends_in.induct)
  case (rest ps)
  from rest.prems(1) rest.hyps show ?case
    by (cases rule: converse_rtranclpE) (auto simp: quiescent_no_moves)
next
  case (move ps qs)
  from move.prems(1) show ?case
  proof (cases rule: converse_rtranclpE)
    case base
    with move.prems(2) move.hyps(1) show ?thesis by simp
  next
    case (step c)
    with move.IH move.prems(2) show ?thesis by blast
  qed
qed

lemma first_move_moves: "first_move ps = Some qs \<Longrightarrow> moves ps qs"
proof -
  assume "first_move ps = Some qs"
  then have "qs \<in> set (List.map_filter (\<lambda>i. step i ps) [0..<length ps])"
    by (auto simp: first_move_def split: list.splits)
  then show ?thesis by (auto simp: moves_def List.map_filter_def split: option.splits)
qed

lemma run_reaches: "moves\<^sup>*\<^sup>* ps (run fuel ps)"
proof (induction fuel arbitrary: ps)
  case 0
  then show ?case by simp
next
  case (Suc fuel)
  show ?case
  proof (cases "first_move ps")
    case None
    then show ?thesis by simp
  next
    case (Some qs)
    from first_move_moves [OF Some] Suc.IH [of qs] Some show ?thesis
      by (simp add: converse_rtranclp_into_rtranclp)
  qed
qed

lemma run_ends_in: "quiescent (run fuel ps) \<Longrightarrow> ends_in ps (run fuel ps)"
  using run_reaches schedule_ends_in by blast

lemma moves_strip: "moves\<^sup>*\<^sup>* a c \<Longrightarrow> moves a b \<Longrightarrow> \<exists>d. moves\<^sup>*\<^sup>* b d \<and> moves\<^sup>=\<^sup>= c d"
proof (induction arbitrary: b rule: converse_rtranclp_induct)
  case base
  then show ?case by blast
next
  case (step a a')
  from moves_diamond [OF step.prems step.hyps(1)] show ?case
  proof
    assume "b = a'"
    with step.hyps(2) show ?thesis by blast
  next
    assume "\<exists>e. moves b e \<and> moves a' e"
    then obtain e where e: "moves b e" "moves a' e" by blast
    from step.IH [OF e(2)] obtain d where "moves\<^sup>*\<^sup>* e d" "moves\<^sup>=\<^sup>= c d" by blast
    with e(1) show ?thesis by (blast intro: converse_rtranclp_into_rtranclp)
  qed
qed

lemma moves_confluent:
  "moves\<^sup>*\<^sup>* a b \<Longrightarrow> moves\<^sup>*\<^sup>* a c \<Longrightarrow> \<exists>d. moves\<^sup>*\<^sup>* b d \<and> moves\<^sup>*\<^sup>* c d"
proof (induction arbitrary: c rule: converse_rtranclp_induct)
  case base
  then show ?case by blast
next
  case (step a a')
  from moves_strip [OF step.prems step.hyps(1)] obtain e where e: "moves\<^sup>*\<^sup>* a' e" "moves\<^sup>=\<^sup>= c e"
    by blast
  from step.IH [OF e(1)] obtain d where d: "moves\<^sup>*\<^sup>* b d" "moves\<^sup>*\<^sup>* e d" by blast
  from e(2) d(2) have "moves\<^sup>*\<^sup>* c d" by (auto intro: converse_rtranclp_into_rtranclp)
  with d(1) show ?case by blast
qed

lemma returned_pending: "returned g = Some r \<Longrightarrow> pending_op g = Nothing"
  by (cases g) auto

lemma step_keeps_returned:
  assumes "step i ps = Some qs" "returned (ps ! k) = Some r"
  shows "qs ! k = ps ! k"
proof -
  from assms(2) have n: "pending_op (ps ! k) = Nothing" by (rule returned_pending)
  show ?thesis
  proof (cases "pending_op (ps ! i)")
    case (Send v)
    with assms(1) have "pending_op (ps ! Suc i) = Recv"
      and "qs = ps[i := after_send (ps ! i), Suc i := after_recv (ps ! Suc i) (Some v)]"
      by (auto simp: step_Send split: if_splits)
    moreover from this(1) Send n have "k \<noteq> i" "k \<noteq> Suc i" by auto
    ultimately show ?thesis by simp
  next
    case Recv
    with assms(1) have "qs = ps[i := after_recv (ps ! i) None]"
      by (auto simp: step_Recv split: if_splits)
    moreover from Recv n have "k \<noteq> i" by auto
    ultimately show ?thesis by simp
  next
    case Close
    with assms(1) have "qs = ps[i := Exited]" by (simp add: step_Close)
    moreover from Close n have "k \<noteq> i" by auto
    ultimately show ?thesis by simp
  next
    case Nothing
    with assms(1) show ?thesis by (simp add: step_Nothing)
  qed
qed

lemma moves_keeps_outcome: "moves ps qs \<Longrightarrow> outcome ps = Some r \<Longrightarrow> outcome qs = Some r"
proof -
  assume m: "moves ps qs" and o: "outcome ps = Some r"
  from m obtain i where i: "step i ps = Some qs" by (auto simp: moves_def)
  from o have ne: "ps \<noteq> []" and r: "returned (ps ! (length ps - 1)) = Some r"
    by (auto simp: outcome_def last_conv_nth split: if_splits)
  from step_keeps_returned [OF i r] have "qs ! (length ps - 1) = ps ! (length ps - 1)" .
  moreover from m have "length qs = length ps" by (rule moves_length)
  ultimately show ?thesis using ne r by (auto simp: outcome_def last_conv_nth)
qed

lemma reaches_keeps_outcome: "moves\<^sup>*\<^sup>* ps qs \<Longrightarrow> outcome ps = Some r \<Longrightarrow> outcome qs = Some r"
  by (induction rule: rtranclp_induct) (auto intro: moves_keeps_outcome)

lemma outcome_deterministic:
  assumes "moves\<^sup>*\<^sup>* ps qs" "moves\<^sup>*\<^sup>* ps qs'" "outcome qs = Some r" "outcome qs' = Some r'"
  shows "r = r'"
proof -
  from moves_confluent [OF assms(1,2)] obtain d where "moves\<^sup>*\<^sup>* qs d" "moves\<^sup>*\<^sup>* qs' d" by blast
  with assms(3,4) have "outcome d = Some r" "outcome d = Some r'"
    by (auto intro: reaches_keeps_outcome)
  then show ?thesis by simp
qed

section \<open>One schedule of each pipeline\<close>

lemma moves_sync:
  assumes "pending_op a = Send v" "pending_op b = Recv"
  shows "moves (xs @ a # b # ys) (xs @ after_send a # after_recv b (Some v) # ys)"
proof -
  have "step (length xs) (xs @ a # b # ys) = Some (xs @ after_send a # after_recv b (Some v) # ys)"
    using assms by (simp add: step_def nth_append list_update_append)
  then show ?thesis by (rule movesI [rotated]) simp
qed

lemma moves_close:
  assumes "pending_op a = Close"
  shows "moves (xs @ a # ys) (xs @ Exited # ys)"
proof -
  have "step (length xs) (xs @ a # ys) = Some (xs @ Exited # ys)"
    using assms by (simp add: step_def nth_append list_update_append)
  then show ?thesis by (rule movesI [rotated]) simp
qed

lemma moves_eof:
  assumes "exited a" "pending_op b = Recv"
  shows "moves (xs @ a # b # ys) (xs @ a # after_recv b None # ys)"
proof -
  have "step (Suc (length xs)) (xs @ a # b # ys) = Some (xs @ a # after_recv b None # ys)"
    using assms by (simp add: step_def nth_append list_update_append)
  then show ?thesis by (rule movesI [rotated]) simp
qed


lemma sync0:
  "pending_op a = Send v \<Longrightarrow> pending_op b = Recv \<Longrightarrow>
   moves\<^sup>*\<^sup>* (after_send a # after_recv b (Some v) # ys) z \<Longrightarrow> moves\<^sup>*\<^sup>* (a # b # ys) z"
  using moves_sync [of a v b "[]" ys] by (simp add: converse_rtranclp_into_rtranclp)

lemma sync1:
  "pending_op a = Send v \<Longrightarrow> pending_op b = Recv \<Longrightarrow>
   moves\<^sup>*\<^sup>* (p # after_send a # after_recv b (Some v) # ys) z \<Longrightarrow> moves\<^sup>*\<^sup>* (p # a # b # ys) z"
  using moves_sync [of a v b "[p]" ys] by (simp add: converse_rtranclp_into_rtranclp)

lemma close0:
  "pending_op a = Close \<Longrightarrow> moves\<^sup>*\<^sup>* (Exited # ys) z \<Longrightarrow> moves\<^sup>*\<^sup>* (a # ys) z"
  using moves_close [of a "[]" ys] by (simp add: converse_rtranclp_into_rtranclp)

lemma close1:
  "pending_op a = Close \<Longrightarrow> moves\<^sup>*\<^sup>* (p # Exited # ys) z \<Longrightarrow> moves\<^sup>*\<^sup>* (p # a # ys) z"
  using moves_close [of a "[p]" ys] by (simp add: converse_rtranclp_into_rtranclp)

lemma eof1:
  "exited a \<Longrightarrow> pending_op b = Recv \<Longrightarrow>
   moves\<^sup>*\<^sup>* (a # after_recv b None # ys) z \<Longrightarrow> moves\<^sup>*\<^sup>* (a # b # ys) z"
  using moves_eof [of a b "[]" ys] by (simp add: converse_rtranclp_into_rtranclp)

lemma eof2:
  "exited a \<Longrightarrow> pending_op b = Recv \<Longrightarrow>
   moves\<^sup>*\<^sup>* (p # a # after_recv b None # ys) z \<Longrightarrow> moves\<^sup>*\<^sup>* (p # a # b # ys) z"
  using moves_eof [of a b "[p]" ys] by (simp add: converse_rtranclp_into_rtranclp)

lemma quiescent_2: "quiescent [a, b] \<longleftrightarrow> step 0 [a, b] = None \<and> step (Suc 0) [a, b] = None"
  by (auto simp: quiescent_iff less_Suc_eq)

lemma quiescent_3:
  "quiescent [a, b, c] \<longleftrightarrow>
   step 0 [a, b, c] = None \<and> step (Suc 0) [a, b, c] = None \<and> step (Suc (Suc 0)) [a, b, c] = None"
  by (auto simp: quiescent_iff less_Suc_eq)

lemma collect_run: "moves\<^sup>*\<^sup>* [EmitLoop xs, CollectLoop s] [Exited, CollectDone (s @ xs)]"
proof (induction xs arbitrary: s)
  case Nil
  show ?case
    by (rule close0, simp, rule eof1, simp, simp, simp)
next
  case (Cons x xs)
  show ?case
    by (rule sync0, simp, simp) (use Cons [of "s @ [x]"] in simp)
qed

lemma quiescent_done2 [simp]: "quiescent [Exited, CollectDone s]" "quiescent [Exited, ReduceDone acc]"
  by (simp_all add: quiescent_2 step_def)

lemma quiescent_done3 [simp]: "quiescent [Exited, Exited, CollectDone s]"
  by (simp add: quiescent_3 step_def)


lemma sint_succ:
  fixes c n :: int64
  assumes "c <s n"
  shows "sint (c + 1) = sint c + 1"
proof -
  have "sint c < sint n" using assms by (simp add: word_sless_alt)
  moreover have "sint n < 2 ^ 63" using sint_lt [of n] by simp
  moreover have "- (2 ^ 63) \<le> sint c" using sint_ge [of c] by simp
  ultimately have "signed_take_bit 63 (sint c + 1) = sint c + 1"
    by (intro signed_take_bit_int_eq_self) auto
  then show ?thesis by (simp add: sint_word_ariths)
qed

lemma sint_of_nat_add:
  fixes a :: int64
  assumes "sint a + int k < 2 ^ 63"
  shows "sint (a + of_nat k) = sint a + int k"
  using assms
proof (induction k)
  case 0
  then show ?case by simp
next
  case (Suc k)
  then have ih: "sint (a + of_nat k) = sint a + int k" by simp
  have "- (2 ^ 63) \<le> sint a" using sint_ge [of a] by simp
  with Suc.prems ih have "signed_take_bit 63 (sint (a + of_nat k) + 1) = sint (a + of_nat k) + 1"
    by (intro signed_take_bit_int_eq_self) auto
  then have "sint (a + of_nat k + 1) = sint (a + of_nat k) + 1" by (simp add: sint_word_ariths)
  with ih show ?case by (simp add: ac_simps)
qed

lemma take_run:
  "moves\<^sup>*\<^sup>* [EmitLoop xs, TakeRecv count n, CollectLoop s]
     [leftover (drop (Suc (nat (sint n - sint count))) xs), Exited,
      CollectDone (s @ take (nat (sint n - sint count)) xs)]"
proof (induction xs arbitrary: count s)
  case Nil
  show ?case
    by (rule close0, simp, rule eof1, simp, simp, simp, rule close1, simp, rule eof2, simp, simp)
      (simp add: leftover_def)
next
  case (Cons x xs)
  show ?case
  proof (cases "count <s n")
    case True
    then have "nat (sint n - sint count) = Suc (nat (sint n - sint (count + 1)))"
      by (simp add: sint_succ) (simp add: word_sless_alt)
    with True show ?thesis
      by - (rule sync0, simp, simp, simp, rule sync1, simp, simp, use Cons [of "count + 1" "s @ [x]"] in simp)
  next
    case False
    then have z: "nat (sint n - sint count) = 0" by (simp add: word_sless_alt)
    show ?thesis
    proof (cases xs)
      case Nil
      with False z show ?thesis
        by - (rule sync0, simp, simp, simp, rule close0, simp, rule close1, simp, rule eof2, simp, simp,
            simp add: leftover_def)
    next
      case (Cons y ys)
      with False z show ?thesis
        by - (rule sync0, simp, simp, simp, rule close1, simp, rule eof2, simp, simp,
            simp add: leftover_def)
    qed
  qed
qed

lemma quiescent_take_end [simp]: "quiescent [leftover xs, Exited, CollectDone s]"
  by (cases xs) (simp_all add: quiescent_3 step_def leftover_def)

lemma seq_take_run:
  "k = nat (sint n - sint count) \<Longrightarrow>
   moves\<^sup>*\<^sup>* [SeqLoop m, TakeRecv count n, CollectLoop s]
     [SeqLoop (m + of_nat (Suc k)), Exited, CollectDone (s @ map (\<lambda>j. m + of_nat j) [0..<k])]"
proof (induction k arbitrary: m count s)
  case 0
  then have "\<not> count <s n" by (simp add: word_sless_alt)
  then show ?case
    by - (rule sync0, simp, simp, simp, rule close1, simp, rule eof2, simp, simp, simp)
next
  case (Suc k)
  then have lt: "count <s n" by (simp add: word_sless_alt)
  with Suc.prems have k: "k = nat (sint n - sint (count + 1))" by (simp add: sint_succ)
  have "map (\<lambda>j. m + of_nat j) [0..<Suc k] = m # map (\<lambda>j. m + 1 + of_nat j) [0..<k]"
    by (simp add: upt_rec [of 0 "Suc k"] map_Suc_upt [symmetric] add.assoc del: upt_Suc)
  with lt show ?case
    by - (rule sync0, simp, simp, simp, rule sync1, simp, simp,
        use Suc.IH [OF k, of "m + 1" "s @ [m]"] in \<open>simp add: add.assoc\<close>)
qed

lemma quiescent_seq_take_end [simp]: "quiescent [SeqLoop m, Exited, CollectDone s]"
  by (simp add: quiescent_3 step_def)

lemma range_run:
  "k = nat (sint to - sint i) \<Longrightarrow>
   moves\<^sup>*\<^sup>* [RangeLoop i to, CollectLoop s]
     [Exited, CollectDone (s @ map (\<lambda>j. i + of_nat j) [0..<k])]"
proof (induction k arbitrary: i s)
  case 0
  then have "\<not> i <s to" by (simp add: word_sless_alt)
  then show ?case
    by - (rule close0, simp, rule eof1, simp, simp, simp)
next
  case (Suc k)
  then have lt: "i <s to" by (simp add: word_sless_alt)
  with Suc.prems have k: "k = nat (sint to - sint (i + 1))" by (simp add: sint_succ)
  have "map (\<lambda>j. i + of_nat j) [0..<Suc k] = i # map (\<lambda>j. i + 1 + of_nat j) [0..<k]"
    by (simp add: upt_rec [of 0 "Suc k"] map_Suc_upt [symmetric] add.assoc del: upt_Suc)
  with lt show ?case
    by - (rule sync0, simp, simp, use Suc.IH [OF k, of "s @ [i]"] in \<open>simp add: add.assoc\<close>)
qed

section \<open>Trial division\<close>

lemma sint_square:
  fixes i :: int64
  assumes "0 \<le> sint i" "sint i \<le> 3037000499"
  shows "sint (i * i) = sint i * sint i"
proof -
  from assms have "sint i * sint i \<le> 3037000499 * 3037000499" by (intro mult_mono) auto
  moreover have "- (2 ^ 63) \<le> sint i * sint i"
    by (rule order_trans [of _ 0]) simp_all
  ultimately have "signed_take_bit 63 (sint i * sint i) = sint i * sint i"
    by (intro signed_take_bit_int_eq_self) simp_all
  then show ?thesis by (simp add: sint_word_ariths)
qed

lemma sint_incr:
  fixes i :: int64
  assumes "sint i < 2 ^ 63 - 1"
  shows "sint (i + 1) = sint i + 1"
proof -
  have "- (2 ^ 63) \<le> sint i" using sint_ge [of i] by simp
  with assms have "signed_take_bit 63 (sint i + 1) = sint i + 1"
    by (intro signed_take_bit_int_eq_self) auto
  then show ?thesis by (simp add: sint_word_ariths)
qed

lemma rem_eq_0_iff:
  fixes n i :: int64
  assumes "0 \<le> sint n" "0 < sint i"
  shows "rem n i = 0 \<longleftrightarrow> sint i dvd sint n"
proof -
  from assms have s: "sint n smod sint i = sint n mod sint i"
    by (simp add: smod_int_alt_def sgn_if)
  from assms have "0 \<le> sint n mod sint i" "sint n mod sint i < sint i" by simp_all
  moreover have "sint i < 2 ^ 63" using sint_lt [of i] by simp
  ultimately have b: "0 \<le> sint n mod sint i" "sint n mod sint i < 2 ^ 64" by simp_all
  have "rem n i = 0 \<longleftrightarrow> (2 :: int) ^ 64 dvd sint n mod sint i"
    by (simp add: rem_def s word_of_int_eq_0_iff)
  also have "\<dots> \<longleftrightarrow> sint n mod sint i = 0"
    using b by (auto dest: zdvd_imp_le)
  also have "\<dots> \<longleftrightarrow> sint i dvd sint n" by (simp add: dvd_eq_mod_eq_0)
  finally show ?thesis .
qed

lemma isPrime_loop_small:
  fixes n i :: int64
  assumes "k = nat (3037000499 - sint i)" "2 \<le> sint i" "sint i \<le> 3037000499"
    and "sint n < 3037000499 * 3037000499"
  shows "isPrime_loop n i = Some (\<forall>d. sint i \<le> d \<and> d * d \<le> sint n \<longrightarrow> \<not> d dvd sint n)"
  using assms
proof (induction k arbitrary: i)
  case 0
  then have i: "sint i = 3037000499" by simp
  then have sq: "sint (i * i) = 3037000499 * 3037000499" by (simp add: sint_square)
  with "0.prems"(4) have "\<not> i * i <=s n" by (simp add: word_sle_eq)
  moreover have "\<And>d. sint i \<le> d \<Longrightarrow> \<not> d * d \<le> sint n"
  proof -
    fix d assume "sint i \<le> d"
    with i have "3037000499 * 3037000499 \<le> d * d" by (intro mult_mono) auto
    with "0.prems"(4) show "\<not> d * d \<le> sint n" by simp
  qed
  ultimately show ?case by (subst isPrime_loop.simps) auto
next
  case (Suc k)
  from Suc.prems have sq: "sint (i * i) = sint i * sint i" by (simp add: sint_square)
  show ?case
  proof (cases "sint i * sint i \<le> sint n")
    case False
    have "\<And>d. sint i \<le> d \<Longrightarrow> \<not> d * d \<le> sint n"
    proof -
      fix d assume "sint i \<le> d"
      with Suc.prems(2) have "sint i * sint i \<le> d * d" by (intro mult_mono) auto
      with False show "\<not> d * d \<le> sint n" by simp
    qed
    moreover from False sq have "\<not> i * i <=s n" by (simp add: word_sle_eq)
    ultimately show ?thesis by (subst isPrime_loop.simps) auto
  next
    case True
    with sq have c: "i * i <=s n" by (simp add: word_sle_eq)
    from Suc.prems(2) have nz: "i \<noteq> 0" by auto
    from True Suc.prems(2) have "0 \<le> sint n"
      by (meson order_trans zero_le_square)
    with Suc.prems(2) have r: "rem n i = 0 \<longleftrightarrow> sint i dvd sint n" by (simp add: rem_eq_0_iff)
    show ?thesis
    proof (cases "sint i dvd sint n")
      case d: True
      with r c nz have "isPrime_loop n i = Some False" by (subst isPrime_loop.simps) simp
      moreover from d True have "\<not> (\<forall>d. sint i \<le> d \<and> d * d \<le> sint n \<longrightarrow> \<not> d dvd sint n)"
        by blast
      ultimately show ?thesis by simp
    next
      case d: False
      from Suc.prems have s: "sint (i + 1) = sint i + 1" by (simp add: sint_incr)
      with Suc.prems have "isPrime_loop n (i + 1) =
          Some (\<forall>d. sint (i + 1) \<le> d \<and> d * d \<le> sint n \<longrightarrow> \<not> d dvd sint n)"
        by (intro Suc.IH) auto
      moreover from d r c nz have "isPrime_loop n i = isPrime_loop n (i + 1)"
        by (subst isPrime_loop.simps) simp
      moreover have "(\<forall>d. sint i + 1 \<le> d \<and> d * d \<le> sint n \<longrightarrow> \<not> d dvd sint n) \<longleftrightarrow>
          (\<forall>d. sint i \<le> d \<and> d * d \<le> sint n \<longrightarrow> \<not> d dvd sint n)"
        using d by (metis add1_zle_eq order_le_less)
      ultimately show ?thesis by (simp add: s)
    qed
  qed
qed

lemma square_below_2_63:
  fixes d :: int
  assumes "0 \<le> d" "d * d < 2 ^ 63"
  shows "d \<le> 3037000499"
proof (rule ccontr)
  assume "\<not> d \<le> 3037000499"
  then have "3037000500 \<le> d" by simp
  then have "3037000500 * 3037000500 \<le> d * d" by (intro mult_mono) auto
  with assms(2) show False by simp
qed

lemma isPrime_loop_divisor:
  fixes n i :: int64
  assumes "k = nat (d - sint i)" "2 \<le> sint i" "sint i \<le> d" "d * d \<le> sint n" "d dvd sint n"
  shows "isPrime_loop n i = Some False"
  using assms
proof (induction k arbitrary: i)
  case 0
  then have i: "sint i = d" by simp
  have "sint n < 2 ^ 63" using sint_lt [of n] by simp
  with "0.prems" i have b: "sint i \<le> 3037000499" by (intro square_below_2_63) auto
  with "0.prems" have "sint (i * i) = sint i * sint i" by (simp add: sint_square)
  with "0.prems" i have c: "i * i <=s n" by (simp add: word_sle_eq)
  from "0.prems" have nz: "i \<noteq> 0" by auto
  from "0.prems" have "0 \<le> sint n" by (meson order_trans zero_le_square)
  with "0.prems" i have "rem n i = 0" by (simp add: rem_eq_0_iff)
  with c nz show ?case by (subst isPrime_loop.simps) simp
next
  case (Suc k)
  have "sint n < 2 ^ 63" using sint_lt [of n] by simp
  with Suc.prems have "d \<le> 3037000499" by (intro square_below_2_63) auto
  with Suc.prems have b: "sint i < 3037000499" by simp
  with Suc.prems have sq: "sint (i * i) = sint i * sint i" by (simp add: sint_square)
  from Suc.prems have "sint i * sint i \<le> d * d" by (intro mult_mono) auto
  with Suc.prems sq have c: "i * i <=s n" by (simp add: word_sle_eq)
  from Suc.prems have nz: "i \<noteq> 0" by auto
  from b have s: "sint (i + 1) = sint i + 1" by (simp add: sint_incr)
  with Suc.prems have "isPrime_loop n (i + 1) = Some False" by (intro Suc.IH) auto
  with c nz show ?case by (subst isPrime_loop.simps) simp
qed

text \<open>The loop leaves at \<open>i = n\<close> at the latest, long before \<open>i\<close> could wrap around to \<open>0\<close>.\<close>

lemma rem_self: "rem n n = 0"
  by (simp add: rem_def smod_int_alt_def)

lemma isPrime_loop_never_panics:
  fixes n i :: int64
  assumes "k = nat (sint n - sint i)" "2 \<le> sint i" "sint i \<le> sint n"
  shows "isPrime_loop n i \<noteq> None"
  using assms
proof (induction k arbitrary: i)
  case 0
  then have "sint i = sint n" by simp
  then have "i = n" by (rule signed_word_eqI)
  with "0.prems"(2) show ?case by (subst isPrime_loop.simps) (auto simp: rem_self)
next
  case (Suc k)
  then have lt: "sint i < sint n" by simp
  moreover have "sint n < 2 ^ 63" using sint_lt [of n] by simp
  ultimately have s: "sint (i + 1) = sint i + 1" by (intro sint_incr) simp
  with Suc.prems lt have "isPrime_loop n (i + 1) \<noteq> None" by (intro Suc.IH) auto
  with Suc.prems(2) show ?case by (subst isPrime_loop.simps) auto
qed

lemma isPrime_never_panics: "isPrime n \<noteq> None"
proof (cases "2 \<le> sint n")
  case True
  then show ?thesis unfolding isPrime_def by (intro isPrime_loop_never_panics) auto
next
  case False
  then have "\<not> (2 :: int64) * 2 <=s n" by (simp add: word_sle_eq)
  then show ?thesis unfolding isPrime_def by (subst isPrime_loop.simps) simp
qed

lemma no_proper_divisor:
  fixes N e :: int
  assumes small: "\<forall>d. 2 \<le> d \<and> d * d \<le> N \<longrightarrow> \<not> d dvd N"
    and e: "2 \<le> e" "e < N"
  shows "\<not> e dvd N"
proof
  assume "e dvd N"
  then obtain k where k: "N = e * k" by (auto simp: dvd_def)
  from e k have kpos: "0 < k" by (simp add: zero_less_mult_iff)
  from e k kpos have k2: "2 \<le> k"
    by (cases "k = 1") auto
  show False
  proof (cases "e * e \<le> N")
    case True
    with small e(1) \<open>e dvd N\<close> show False by blast
  next
    case False
    with k have "e * k < e * e" by simp
    with e(1) have "k < e" by (simp add: mult_less_cancel_left)
    with kpos have "k * k \<le> e * k" by (simp add: mult_right_mono)
    with k have "k * k \<le> N" by simp
    moreover from k have "k dvd N" by simp
    ultimately show False using small k2 by blast
  qed
qed

text \<open>
  The loop on an \<open>n\<close> without proper divisor returns true as soon as the wrapped \<open>i*i\<close>
  exceeds \<open>n\<close>, which it does at \<open>c\<close> at the latest.
\<close>

lemma isPrime_loop_prime:
  fixes n i c :: int64
  assumes "k = nat (sint c - sint i)" "2 \<le> sint i" "sint i \<le> sint c" "sint c < sint n"
    and "\<not> c * c <=s n"
    and "\<forall>e. 2 \<le> e \<and> e < sint n \<longrightarrow> \<not> e dvd sint n"
  shows "isPrime_loop n i = Some True"
  using assms
proof (induction k arbitrary: i)
  case 0
  then have "sint i = sint c" by simp
  then have "i = c" by (rule signed_word_eqI)
  with "0.prems"(5) show ?case by (subst isPrime_loop.simps) simp
next
  case (Suc k)
  then have lt: "sint i < sint c" by simp
  have "sint c < 2 ^ 63" using sint_lt [of c] by simp
  with lt have s: "sint (i + 1) = sint i + 1" by (intro sint_incr) simp
  with Suc.prems lt have ih: "isPrime_loop n (i + 1) = Some True" by (intro Suc.IH) auto
  from Suc.prems(2) have nz: "i \<noteq> 0" by auto
  from Suc.prems lt have "\<not> sint i dvd sint n" by auto
  moreover from Suc.prems lt have "0 \<le> sint n" "0 < sint i" by auto
  ultimately have "rem n i \<noteq> 0" by (simp add: rem_eq_0_iff)
  with nz ih show ?case by (subst isPrime_loop.simps) simp
qed

lemma wrapped_square:
  "sint ((2759374635167858507 :: int64) * 2759374635167858507) = 9223372036854775801"
  by simp

lemma top_composite:
  fixes N :: int
  assumes "9223372036854775801 \<le> N" "N < 9223372036854775808"
  shows "\<exists>d. 2 \<le> d \<and> d * d \<le> N \<and> d dvd N"
proof -
  from assms have "N = 9223372036854775801 \<or> N = 9223372036854775802 \<or> N = 9223372036854775803
    \<or> N = 9223372036854775804 \<or> N = 9223372036854775805 \<or> N = 9223372036854775806
    \<or> N = 9223372036854775807" by presburger
  moreover have "(157 :: int) dvd 9223372036854775801" "(2 :: int) dvd 9223372036854775802"
    "(3 :: int) dvd 9223372036854775803" "(2 :: int) dvd 9223372036854775804"
    "(5 :: int) dvd 9223372036854775805" "(2 :: int) dvd 9223372036854775806"
    "(7 :: int) dvd 9223372036854775807" by simp_all
  ultimately show ?thesis
    by (elim disjE) (rule exI [of _ 157], simp, rule exI [of _ 2], simp, rule exI [of _ 3], simp,
      rule exI [of _ 2], simp, rule exI [of _ 5], simp, rule exI [of _ 2], simp, rule exI [of _ 7], simp)
qed

section \<open>Schedules and what the caller gets\<close>

lemma exec_reaches: "moves\<^sup>*\<^sup>* ps (exec sched ps)"
proof (induction sched arbitrary: ps)
  case Nil
  then show ?case by simp
next
  case (Cons i sched)
  show ?case
  proof (cases "i < length ps")
    case False
    with Cons show ?thesis by simp
  next
    case True
    show ?thesis
    proof (cases "step i ps")
      case None
      with True Cons show ?thesis by simp
    next
      case (Some qs)
      with True have "moves ps qs" by (rule movesI)
      with Cons [of qs] True Some show ?thesis
        by (simp add: converse_rtranclp_into_rtranclp)
    qed
  qed
qed

lemma exec_append: "exec (sched @ more) ps = exec more (exec sched ps)"
  by (induction sched arbitrary: ps) (auto split: option.splits)

lemma reaches_exec: "moves\<^sup>*\<^sup>* ps qs \<Longrightarrow> \<exists>sched. exec sched ps = qs"
proof (induction rule: converse_rtranclp_induct)
  case base
  have "exec [] qs = qs" by simp
  then show ?case by blast
next
  case (step a b)
  from step.hyps(1) obtain i where i: "i < length a" "step i a = Some b"
    by (auto simp: moves_def)
  from step.IH obtain sched where "exec sched b = qs" by blast
  with i have "exec (i # sched) a = qs" by simp
  then show ?case by blast
qed

lemma returnsI: "moves\<^sup>*\<^sup>* ps qs \<Longrightarrow> quiescent qs \<Longrightarrow> outcome qs = Some r \<Longrightarrow> returns ps r"
  unfolding returns_def using schedule_ends_in by blast

lemma seq_collect_invariant:
  "moves\<^sup>*\<^sup>* [SeqLoop 0, CollectLoop []] qs \<Longrightarrow> \<exists>m s. qs = [SeqLoop m, CollectLoop s]"
proof (induction rule: rtranclp_induct)
  case base
  then show ?case by blast
next
  case (step a b)
  then obtain m s where a: "a = [SeqLoop m, CollectLoop s]" by blast
  from step.hyps(2) obtain i where "i < Suc (Suc 0)" "step i a = Some b"
    by (auto simp: moves_def a)
  then have "i = 0 \<or> i = Suc 0" by auto
  with \<open>step i a = Some b\<close> a show ?case by (auto simp: step_def)
qed

lemma seq_reduce_invariant:
  "moves\<^sup>*\<^sup>* [SeqLoop 0, ReduceLoop init fn] qs \<Longrightarrow> \<exists>m acc. qs = [SeqLoop m, ReduceLoop acc fn]"
proof (induction rule: rtranclp_induct)
  case base
  then show ?case by blast
next
  case (step a b)
  then obtain m acc where a: "a = [SeqLoop m, ReduceLoop acc fn]" by blast
  from step.hyps(2) obtain i where "i < Suc (Suc 0)" "step i a = Some b"
    by (auto simp: moves_def a)
  then have "i = 0 \<or> i = Suc 0" by auto
  with \<open>step i a = Some b\<close> a show ?case by (auto simp: step_def)
qed

lemma map_add_upt_upto: "k = nat (B - A) \<Longrightarrow> map (\<lambda>j. A + int j) [0..<k] = [A..B - 1]"
proof (induction k arbitrary: A)
  case 0
  then show ?case by simp
next
  case (Suc k)
  then have le: "A \<le> B - 1" and k: "k = nat (B - (A + 1))" by auto
  have "map (\<lambda>j. A + int j) [0..<Suc k] = A # map (\<lambda>j. A + 1 + int j) [0..<k]"
    by (simp add: upt_rec [of 0 "Suc k"] map_Suc_upt [symmetric] add.assoc del: upt_Suc)
  also have "\<dots> = A # [A + 1..B - 1]" using Suc.IH [OF k] by simp
  also have "\<dots> = [A..B - 1]" using le by (simp add: upto_rec1)
  finally show ?case .
qed

lemma sint_range_elems:
  fixes a b :: int64
  shows "map sint (map (\<lambda>j. a + of_nat j) [0..<nat (sint b - sint a)]) = [sint a..sint b - 1]"
proof -
  have "sint b < 2 ^ 63" using sint_lt [of b] by simp
  then have "\<And>j. j < nat (sint b - sint a) \<Longrightarrow> sint (a + of_nat j) = sint a + int j"
    by (intro sint_of_nat_add) auto
  then have "map sint (map (\<lambda>j. a + of_nat j) [0..<nat (sint b - sint a)])
      = map (\<lambda>j. sint a + int j) [0..<nat (sint b - sint a)]"
    by simp
  then show ?thesis by (simp add: map_add_upt_upto)
qed

section \<open>A pipeline behind a finite sequence\<close>

lemma step_append_left:
  assumes "i < length P" "step i P = Some P'"
  shows "step i (P @ T) = Some (P' @ T)"
proof (cases "pending_op (P ! i)")
  case (Send v)
  with assms(2) have "Suc i < length P" "pending_op (P ! Suc i) = Recv"
    "P' = P[i := after_send (P ! i), Suc i := after_recv (P ! Suc i) (Some v)]"
    by (auto simp: step_Send split: if_splits)
  with Send assms(1) show ?thesis
    by (simp add: step_Send nth_append list_update_append)
next
  case Recv
  with assms(2) have "0 < i" "exited (P ! (i - 1))" "P' = P[i := after_recv (P ! i) None]"
    by (auto simp: step_Recv split: if_splits)
  moreover from assms(1) have "i - Suc 0 < length P" by simp
  ultimately show ?thesis using Recv assms(1)
    by (simp add: step_Recv nth_append list_update_append)
next
  case Close
  with assms show ?thesis by (simp add: step_Close nth_append list_update_append)
next
  case Nothing
  with assms show ?thesis by (simp add: step_Nothing)
qed

lemma step_append_right:
  assumes "j < length T" "step j T = Some T'"
  shows "step (length P + j) (P @ T) = Some (P @ T')"
proof (cases "pending_op (T ! j)")
  case (Send v)
  with assms(2) have "Suc j < length T" "pending_op (T ! Suc j) = Recv"
    "T' = T[j := after_send (T ! j), Suc j := after_recv (T ! Suc j) (Some v)]"
    by (auto simp: step_Send split: if_splits)
  with Send assms(1) show ?thesis
    by (simp add: step_Send nth_append list_update_append)
next
  case Recv
  with assms(2) have "0 < j" "exited (T ! (j - 1))" "T' = T[j := after_recv (T ! j) None]"
    by (auto simp: step_Recv split: if_splits)
  moreover from this(1) have "\<not> length P + j - Suc 0 < length P"
    "length P + j - Suc 0 - length P = j - Suc 0" by simp_all
  ultimately show ?thesis using Recv assms(1)
    by (simp add: step_Recv nth_append list_update_append)
next
  case Close
  with assms show ?thesis by (simp add: step_Close nth_append list_update_append)
next
  case Nothing
  with assms show ?thesis by (simp add: step_Nothing)
qed

lemma moves_append_left: "moves P P' \<Longrightarrow> moves (P @ T) (P' @ T)"
  by (auto simp: moves_def dest: step_append_left [where T = T] intro: trans_less_add1)

lemma moves_append_right: "moves T T' \<Longrightarrow> moves (P @ T) (P @ T')"
proof -
  assume "moves T T'"
  then obtain j where j: "j < length T" "step j T = Some T'" by (auto simp: moves_def)
  from step_append_right [OF this, of P] j(1) show ?thesis
    by (intro movesI [of "length P + j"]) auto
qed

lemma reaches_append_left: "moves\<^sup>*\<^sup>* P P' \<Longrightarrow> moves\<^sup>*\<^sup>* (P @ T) (P' @ T)"
  by (induction rule: rtranclp_induct) (auto intro: moves_append_left rtranclp.rtrancl_into_rtrancl)

lemma reaches_append_right: "moves\<^sup>*\<^sup>* T T' \<Longrightarrow> moves\<^sup>*\<^sup>* (P @ T) (P @ T')"
  by (induction rule: rtranclp_induct) (auto intro: moves_append_right rtranclp.rtrancl_into_rtrancl)

text \<open>
  A move of \<open>P @ T\<close> is a move inside \<open>P\<close>, a move inside \<open>T\<close>, or one on the channel
  between the two: a value handed over, or the end of the input seen.
\<close>

lemma moves_append_cases:
  assumes "moves (P @ T) X"
  obtains
    (left) P' where "moves P P'" "X = P' @ T"
  | (right) T' where "moves T T'" "X = P @ T'"
  | (sync) P0 a v b T0 where "P = P0 @ [a]" "T = b # T0" "pending_op a = Send v"
      "pending_op b = Recv" "X = P0 @ after_send a # after_recv b (Some v) # T0"
  | (eof) P0 a b T0 where "P = P0 @ [a]" "T = b # T0" "exited a" "pending_op b = Recv"
      "X = P0 @ a # after_recv b None # T0"
proof -
  from assms obtain i where i: "i < length P + length T" "step i (P @ T) = Some X"
    by (auto simp: moves_def)
  show thesis
  proof (cases "i < length P")
    case True
    show ?thesis
    proof (cases "pending_op (P ! i)")
      case (Send v)
      with i True have s: "Suc i < length P + length T" "pending_op ((P @ T) ! Suc i) = Recv"
        "X = (P @ T)[i := after_send (P ! i), Suc i := after_recv ((P @ T) ! Suc i) (Some v)]"
        by (auto simp: step_Send nth_append split: if_splits)
      show ?thesis
      proof (cases "Suc i < length P")
        case l: True
        with s Send True have "step i P = Some (P[i := after_send (P ! i), Suc i := after_recv (P ! Suc i) (Some v)])"
          "X = P[i := after_send (P ! i), Suc i := after_recv (P ! Suc i) (Some v)] @ T"
          by (simp_all add: step_Send nth_append list_update_append)
        with True show ?thesis by (intro left) (auto intro: movesI [of i])
      next
        case False
        with True have e: "Suc i = length P" by simp
        then obtain Q a where P: "P = Q @ [a]" by (cases P rule: rev_cases) auto
        with e have lq: "length Q = i" by simp
        from e s obtain b T0 where T: "T = b # T0" by (cases T) auto
        from s(2) lq have "pending_op b = Recv" by (simp add: P T nth_append)
        moreover from Send lq have "pending_op a = Send v" by (simp add: P nth_append)
        moreover from s(3) lq have "X = Q @ after_send a # after_recv b (Some v) # T0"
          by (simp add: P T nth_append list_update_append)
        ultimately show ?thesis using P T by (intro sync [of Q a b T0 v]) auto
      qed
    next
      case Recv
      with i True have "0 < i" "exited (P ! (i - 1))" "X = P[i := after_recv (P ! i) None] @ T"
        by (auto simp: step_Recv nth_append list_update_append split: if_splits)
      with Recv True show ?thesis
        by (intro left [of "P[i := after_recv (P ! i) None]"]) (auto intro!: movesI [of i] simp: step_Recv)
    next
      case Close
      with i True have "X = P[i := Exited] @ T"
        by (auto simp: step_Close nth_append list_update_append)
      with Close True show ?thesis
        by (intro left [of "P[i := Exited]"]) (auto intro!: movesI [of i] simp: step_Close)
    next
      case Nothing
      with i True show ?thesis by (simp add: step_Nothing nth_append)
    qed
  next
    case False
    define j where "j = i - length P"
    with False i have j: "i = length P + j" "j < length T" by auto
    show ?thesis
    proof (cases "pending_op (T ! j)")
      case (Send v)
      with i j have "Suc j < length T" "pending_op (T ! Suc j) = Recv"
        "X = P @ T[j := after_send (T ! j), Suc j := after_recv (T ! Suc j) (Some v)]"
        by (auto simp: step_Send nth_append list_update_append split: if_splits)
      with Send j show ?thesis
        by (intro right [of "T[j := after_send (T ! j), Suc j := after_recv (T ! Suc j) (Some v)]"])
          (auto intro!: movesI [of j] simp: step_Send)
    next
      case Recv
      with i j have r: "0 < i" "exited ((P @ T) ! (i - 1))" "X = P @ T[j := after_recv (T ! j) None]"
        by (auto simp: step_Recv nth_append list_update_append split: if_splits)
      show ?thesis
      proof (cases j)
        case 0
        with j r have ne: "P \<noteq> []" by auto
        then obtain Q a where P: "P = Q @ [a]" by (cases P rule: rev_cases) auto
        from j 0 obtain b T0 where T: "T = b # T0" by (cases T) auto
        from r(2) j 0 have "exited a" by (simp add: P nth_append)
        moreover from Recv 0 T have "pending_op b = Recv" by simp
        moreover from r(3) 0 have "X = Q @ a # after_recv b None # T0" by (simp add: P T)
        ultimately show ?thesis using P T by (intro eof [of Q a b T0]) auto
      next
        case (Suc j')
        with r j have "exited (T ! (j - 1))" by (simp add: nth_append)
        with Recv r(3) j Suc show ?thesis
          by (intro right [of "T[j := after_recv (T ! j) None]"]) (auto intro!: movesI [of j] simp: step_Recv)
      qed
    next
      case Close
      with i j have "X = P @ T[j := Exited]"
        by (auto simp: step_Close nth_append list_update_append)
      with Close j show ?thesis
        by (intro right [of "T[j := Exited]"]) (auto intro!: movesI [of j] simp: step_Close)
    next
      case Nothing
      with i j show ?thesis by (simp add: step_Nothing nth_append)
    qed
  qed
qed

lemma quiescent_left: "quiescent (P @ T) \<Longrightarrow> quiescent P"
  by (auto simp: quiescent_no_moves dest: moves_append_left)

lemma quiescent_append:
  assumes "quiescent P" "quiescent T" "T \<noteq> []" "pending_op (hd T) \<noteq> Recv"
  shows "quiescent (P @ T)"
  unfolding quiescent_no_moves
proof (intro allI notI)
  fix X
  assume "moves (P @ T) X"
  then show False
  proof (cases rule: moves_append_cases)
    case (left P')
    with assms(1) show False by (simp add: quiescent_no_moves)
  next
    case (right T')
    with assms(2) show False by (simp add: quiescent_no_moves)
  next
    case (sync P0 a v b T0)
    with assms(4) show False by simp
  next
    case (eof P0 a b T0)
    with assms(4) show False by simp
  qed
qed

lemma outcome_append: "T \<noteq> [] \<Longrightarrow> outcome (P @ T) = outcome T"
  by (simp add: outcome_def)

text \<open>
  If the whole pipeline comes to rest, so does its front part when it is left alone: its
  moves are moves of the whole.
\<close>

lemma front_stalls:
  "(moves ^^ n) (P @ T) Z \<Longrightarrow> quiescent Z \<Longrightarrow> \<exists>P'. moves\<^sup>*\<^sup>* P P' \<and> quiescent P'"
proof (induction n arbitrary: P)
  case 0
  then have "quiescent P" by (auto dest: quiescent_left)
  then show ?case by blast
next
  case (Suc n)
  show ?case
  proof (cases "quiescent P")
    case True
    then show ?thesis by blast
  next
    case False
    then obtain P1 where m: "moves P P1" by (auto simp: quiescent_no_moves)
    then have "moves (P @ T) (P1 @ T)" by (rule moves_append_left)
    from moves_descent [OF Suc.prems(1,2) this] have "(moves ^^ n) (P1 @ T) Z" by simp
    from Suc.IH [OF this Suc.prems(2)] obtain P' where "moves\<^sup>*\<^sup>* P1 P'" "quiescent P'" by blast
    with m show ?thesis by (blast intro: converse_rtranclp_into_rtranclp)
  qed
qed

lemma no_moves_CollectLoop: "\<not> moves [CollectLoop s] X"
  by (simp add: moves_def step_def)

lemma collected_prefix:
  "(moves ^^ n) (P @ [CollectLoop s]) Z \<Longrightarrow> outcome Z = Some (Slice t) \<Longrightarrow> \<exists>rest. t = s @ rest"
proof (induction n arbitrary: P s)
  case 0
  then have "outcome Z = None" by (auto simp: outcome_def)
  with 0 show ?case by simp
next
  case (Suc n)
  from relpowp_Suc_D2 [OF Suc.prems(1)] obtain X
    where X: "moves (P @ [CollectLoop s]) X" "(moves ^^ n) X Z" by blast
  from X(1) show ?case
  proof (cases rule: moves_append_cases)
    case (left P')
    with X(2) Suc.IH [of P' s] Suc.prems(2) show ?thesis by simp
  next
    case (right T')
    then show ?thesis by (simp add: no_moves_CollectLoop)
  next
    case (sync P0 a v b T0)
    then have "X = (P0 @ [after_send a]) @ [CollectLoop (s @ [v])]" by auto
    with X(2) Suc.IH [of "P0 @ [after_send a]" "s @ [v]"] Suc.prems(2) show ?thesis by auto
  next
    case (eof P0 a b T0)
    then have "outcome X = Some (Slice s)" by (auto simp: outcome_def)
    moreover from X(2) have "moves\<^sup>*\<^sup>* X Z" by (rule relpowp_imp_rtranclp)
    ultimately have "outcome Z = Some (Slice s)" by (rule reaches_keeps_outcome [rotated])
    with Suc.prems(2) show ?thesis by simp
  qed
qed

lemma tail_simulation:
  "(moves ^^ n) (P @ [CollectLoop s]) Z \<Longrightarrow> quiescent Z \<Longrightarrow> outcome Z = Some (Slice (s @ rest)) \<Longrightarrow>
   tail_gives T rest r \<Longrightarrow> \<exists>Y. moves\<^sup>*\<^sup>* (P @ T) Y \<and> quiescent Y \<and> outcome Y = Some r"
proof (induction n arbitrary: P s rest T)
  case 0
  then have "outcome Z = None" by (auto simp: outcome_def)
  with 0 show ?case by simp
next
  case (Suc n)
  from relpowp_Suc_D2 [OF Suc.prems(1)] obtain X
    where X: "moves (P @ [CollectLoop s]) X" "(moves ^^ n) X Z" by blast
  from Suc.prems(4) show ?case
  proof (cases rule: tail_gives.cases)
    case (stop T')
    from front_stalls [OF Suc.prems(1,2)] obtain P' where P': "moves\<^sup>*\<^sup>* P P'" "quiescent P'"
      by blast
    from P'(1) have "moves\<^sup>*\<^sup>* (P @ T) (P' @ T)" by (rule reaches_append_left)
    also from stop(1) have "moves\<^sup>*\<^sup>* (P' @ T) (P' @ T')" by (rule reaches_append_right)
    finally have "moves\<^sup>*\<^sup>* (P @ T) (P' @ T')" .
    moreover from P'(2) stop have "quiescent (P' @ T')" by (intro quiescent_append)
    moreover from stop have "outcome (P' @ T') = Some r" by (simp add: outcome_append)
    ultimately show ?thesis by blast
  next
    case (elem b v T0 T1 rest')
    from X(1) show ?thesis
    proof (cases rule: moves_append_cases)
      case (left P')
      then have "moves (P @ T) (P' @ T)" by (simp add: moves_append_left)
      moreover from X(2) left Suc.IH [of P' s rest T] Suc.prems(2,3,4)
      obtain Y where "moves\<^sup>*\<^sup>* (P' @ T) Y" "quiescent Y" "outcome Y = Some r" by auto
      ultimately show ?thesis by (blast intro: converse_rtranclp_into_rtranclp)
    next
      case (right T')
      then show ?thesis by (simp add: no_moves_CollectLoop)
    next
      case (sync P0 a w c C0)
      then have Xe: "X = (P0 @ [after_send a]) @ [CollectLoop (s @ [w])]" by auto
      with X(2) Suc.prems(3) collected_prefix [of n "P0 @ [after_send a]" "s @ [w]" Z "s @ rest"]
      obtain rest'' where "s @ rest = (s @ [w]) @ rest''" by auto
      with elem(2) have w: "w = v" "rest'' = rest'" by auto
      from sync elem(1,3) have "moves (P @ T) (P0 @ after_send a # after_recv b (Some v) # T0)"
        using moves_sync [of a v b P0 T0] w by simp
      also from elem(4) have "moves\<^sup>*\<^sup>* (P0 @ after_send a # after_recv b (Some v) # T0) ((P0 @ [after_send a]) @ T1)"
        using reaches_append_right [of "after_recv b (Some v) # T0" T1 "P0 @ [after_send a]"] by simp
      finally have "moves\<^sup>*\<^sup>* (P @ T) ((P0 @ [after_send a]) @ T1)" .
      moreover from X(2) Xe w elem(2) Suc.prems(2,3) elem(5)
        Suc.IH [of "P0 @ [after_send a]" "s @ [v]" rest' T1]
      obtain Y where "moves\<^sup>*\<^sup>* ((P0 @ [after_send a]) @ T1) Y" "quiescent Y" "outcome Y = Some r"
        by auto
      ultimately show ?thesis by (blast intro: rtranclp_trans)
    next
      case (eof P0 a c C0)
      then have "outcome X = Some (Slice s)" by (auto simp: outcome_def)
      moreover from X(2) have "moves\<^sup>*\<^sup>* X Z" by (rule relpowp_imp_rtranclp)
      ultimately have "outcome Z = Some (Slice s)" by (rule reaches_keeps_outcome [rotated])
      with Suc.prems(3) elem(2) show ?thesis by simp
    qed
  next
    case (eof b T0 T')
    from X(1) show ?thesis
    proof (cases rule: moves_append_cases)
      case (left P')
      then have "moves (P @ T) (P' @ T)" by (simp add: moves_append_left)
      moreover from X(2) left Suc.IH [of P' s rest T] Suc.prems(2,3,4)
      obtain Y where "moves\<^sup>*\<^sup>* (P' @ T) Y" "quiescent Y" "outcome Y = Some r" by auto
      ultimately show ?thesis by (blast intro: converse_rtranclp_into_rtranclp)
    next
      case (right T')
      then show ?thesis by (simp add: no_moves_CollectLoop)
    next
      case (sync P0 a w c C0)
      then have Xe: "X = (P0 @ [after_send a]) @ [CollectLoop (s @ [w])]" by auto
      with X(2) Suc.prems(3) collected_prefix [of n "P0 @ [after_send a]" "s @ [w]" Z "s @ rest"]
      obtain rest'' where "s @ rest = (s @ [w]) @ rest''" by auto
      with eof(2) show ?thesis by simp
    next
      case e: (eof P0 a c C0)
      then have Xe: "X = P @ [CollectDone s]" by auto
      with X(2) front_stalls [of n P "[CollectDone s]" Z] Suc.prems(2)
      obtain P' where P': "moves\<^sup>*\<^sup>* P P'" "quiescent P'" by auto
      from e eof(1,3) have "moves (P @ T) (P @ after_recv b None # T0)"
        using moves_eof [of a b P0 T0] by simp
      also from eof(4) have "moves\<^sup>*\<^sup>* (P @ after_recv b None # T0) (P @ T')"
        by (rule reaches_append_right)
      also from P'(1) have "moves\<^sup>*\<^sup>* (P @ T') (P' @ T')" by (rule reaches_append_left)
      finally have "moves\<^sup>*\<^sup>* (P @ T) (P' @ T')" .
      moreover from P'(2) eof have "quiescent (P' @ T')" by (intro quiescent_append)
      moreover from eof have "outcome (P' @ T') = Some r" by (simp add: outcome_append)
      ultimately show ?thesis by blast
    qed
  qed
qed

section \<open>Sequences that never close\<close>

lemma step_keeps_idle:
  assumes "step i ps = Some qs" "pending_op (ps ! k) = Nothing"
  shows "qs ! k = ps ! k"
proof (cases "pending_op (ps ! i)")
  case (Send v)
  with assms(1) have "pending_op (ps ! Suc i) = Recv"
    and "qs = ps[i := after_send (ps ! i), Suc i := after_recv (ps ! Suc i) (Some v)]"
    by (auto simp: step_Send split: if_splits)
  moreover from this(1) Send assms(2) have "k \<noteq> i" "k \<noteq> Suc i" by auto
  ultimately show ?thesis by simp
next
  case Recv
  with assms(1) have "qs = ps[i := after_recv (ps ! i) None]"
    by (auto simp: step_Recv split: if_splits)
  moreover from Recv assms(2) have "k \<noteq> i" by auto
  ultimately show ?thesis by simp
next
  case Close
  with assms(1) have "qs = ps[i := Exited]" by (simp add: step_Close)
  moreover from Close assms(2) have "k \<noteq> i" by auto
  ultimately show ?thesis by simp
next
  case Nothing
  with assms(1) show ?thesis by (simp add: step_Nothing)
qed

lemma caller_loop_Recv: "caller_loop c \<Longrightarrow> pending_op c = Recv"
  by (cases c) auto

lemma caller_loop_after_recv: "caller_loop c \<Longrightarrow> caller_loop (after_recv c (Some v))"
  by (cases c) auto

lemma caller_loop_returned: "caller_loop c \<Longrightarrow> returned c = None"
  by (cases c) auto

lemma no_moves_single: "pending_op c \<noteq> Close \<Longrightarrow> \<not> moves [c] X"
  by (cases "pending_op c") (auto simp: moves_def step_def)

text \<open>The caller leaves its loop only when it sees the channel closed.\<close>

lemma caller_loop_eof: "caller_loop c \<Longrightarrow> returned (after_recv c None) \<noteq> None"
  by (cases c) auto

lemma caller_invariant:
  assumes "moves\<^sup>*\<^sup>* (S @ [c]) qs" "caller_loop c"
  shows "\<exists>P c'. qs = P @ [c'] \<and> length P = length S
    \<and> (caller_loop c' \<or> (returned c' \<noteq> None \<and> P \<noteq> [] \<and> exited (last P)))"
  using assms
proof (induction rule: rtranclp_induct)
  case base
  then show ?case by auto
next
  case (step a X)
  then obtain P c' where a: "a = P @ [c']" "length P = length S"
    "caller_loop c' \<or> (returned c' \<noteq> None \<and> P \<noteq> [] \<and> exited (last P))" by blast
  then have nc: "pending_op c' \<noteq> Close"
    by (auto simp: caller_loop_Recv dest: returned_pending)
  from a(3) have rc: "pending_op c' = Recv \<Longrightarrow> caller_loop c'"
    by (auto dest: returned_pending)
  from step.hyps(2) a(1) have "moves (P @ [c']) X" by simp
  then show ?case
  proof (cases rule: moves_append_cases)
    case (left P')
    then obtain i where i: "i < length P" "step i P = Some P'" by (auto simp: moves_def)
    then have l: "length P' = length P" by (simp add: step_length)
    have "P \<noteq> [] \<and> exited (last P) \<Longrightarrow> P' \<noteq> [] \<and> exited (last P')"
    proof -
      assume e: "P \<noteq> [] \<and> exited (last P)"
      then have "exited (P ! (length P - 1))" by (auto simp: last_conv_nth)
      then have "pending_op (P ! (length P - 1)) = Nothing" by (rule pending_exited)
      from step_keeps_idle [OF i(2) this] have "P' ! (length P - 1) = P ! (length P - 1)" .
      moreover from e l have ne': "P' \<noteq> []" by auto
      moreover from ne' l have "last P' = P' ! (length P - 1)" by (simp add: last_conv_nth)
      moreover from e have "last P = P ! (length P - 1)" by (simp add: last_conv_nth)
      ultimately show ?thesis using e by simp
    qed
    with left a l show ?thesis by auto
  next
    case (right T')
    with nc show ?thesis by (simp add: no_moves_single)
  next
    case (sync P0 b v d T0)
    with rc have "caller_loop c'" by simp
    with sync a(2) have "X = (P0 @ [after_send b]) @ [after_recv c' (Some v)]"
      "length (P0 @ [after_send b]) = length S" "caller_loop (after_recv c' (Some v))"
      by (auto simp: caller_loop_after_recv)
    then show ?thesis by blast
  next
    case (eof P0 b d T0)
    with rc have "caller_loop c'" by simp
    with eof have "X = P @ [after_recv c' None]" "P \<noteq> []" "exited (last P)"
      "returned (after_recv c' None) \<noteq> None" by (auto simp: caller_loop_eof)
    with a(2) show ?thesis by blast
  qed
qed

lemma returns_only_after_close:
  assumes "moves\<^sup>*\<^sup>* (S @ [c]) qs" "caller_loop c" "outcome qs \<noteq> None"
  shows "closed_in S qs"
proof -
  from caller_invariant [OF assms(1,2)] obtain P c' where q: "qs = P @ [c']" "length P = length S"
    "caller_loop c' \<or> (returned c' \<noteq> None \<and> P \<noteq> [] \<and> exited (last P))" by blast
  from assms(3) q(1) have "\<not> caller_loop c'" by (auto simp: outcome_def caller_loop_returned)
  with q(3) have ne: "P \<noteq> []" and e: "exited (last P)" by auto
  from ne q(2) have "length S - 1 < length P" "S \<noteq> []" by (cases P; auto)+
  with q(1,2) ne e show ?thesis by (simp add: closed_in_def nth_append last_conv_nth)
qed

lemma flowing_facts:
  assumes "flowing g"
  shows "\<not> exited g" "pending_op g \<noteq> Close" "pending_op g \<noteq> Nothing" "flowing (after_send g)"
    "pending_op g = Recv \<Longrightarrow> flowing (after_recv g (Some v))"
    "\<not> caller_loop g"
  using assms by (cases g; auto)+

lemma flowing_pending: "flowing g \<Longrightarrow> pending_op g = Recv \<or> (\<exists>v. pending_op g = Send v)"
  by (cases g) auto

lemma endless_flowing: "endless E \<Longrightarrow> list_all flowing E \<and> (\<exists>m R. E = SeqLoop m # R)"
  by (induction rule: endless.induct) (auto simp: Seq_def Map_def Filter_def Drop_def)

lemma step_flowing:
  assumes "list_all flowing P" "step i P = Some P'" "i < length P"
  shows "list_all flowing P' \<and> ((\<exists>m. hd P = SeqLoop m) \<longrightarrow> (\<exists>m. hd P' = SeqLoop m))"
proof -
  from assms(1) have fl: "\<And>k. k < length P \<Longrightarrow> flowing (P ! k)" by (simp add: list_all_length)
  from assms(3) have ne: "P \<noteq> []" by auto
  show ?thesis
  proof (cases "pending_op (P ! i)")
    case (Send v)
    with assms(2) have s: "Suc i < length P" "pending_op (P ! Suc i) = Recv"
      "P' = P[i := after_send (P ! i), Suc i := after_recv (P ! Suc i) (Some v)]"
      by (auto simp: step_Send split: if_splits)
    have "\<And>k. k < length P \<Longrightarrow> flowing (P' ! k)"
      using s fl assms(3) by (auto simp: nth_list_update flowing_facts)
    then have "list_all flowing P'" using s(3) by (simp add: list_all_length)
    moreover have "(\<exists>m. hd P = SeqLoop m) \<longrightarrow> (\<exists>m. hd P' = SeqLoop m)"
    proof
      assume "\<exists>m. hd P = SeqLoop m"
      then obtain m where m: "P ! 0 = SeqLoop m" using ne by (auto simp: hd_conv_nth)
      from s(3) ne have "hd P' = P' ! 0" by (simp add: hd_conv_nth)
      with m s(3) ne show "\<exists>m. hd P' = SeqLoop m"
        by (cases i) (auto simp: nth_list_update)
    qed
    ultimately show ?thesis by blast
  next
    case Recv
    with assms(2) have "0 < i" "exited (P ! (i - 1))" by (auto simp: step_Recv split: if_splits)
    with fl [of "i - 1"] assms(3) show ?thesis by (auto simp: flowing_facts)
  next
    case Close
    with fl [OF assms(3)] show ?thesis by (simp add: flowing_facts)
  next
    case Nothing
    with assms(2) show ?thesis by (simp add: step_Nothing)
  qed
qed

lemma endless_invariant:
  assumes "moves\<^sup>*\<^sup>* (E @ [c]) qs" "endless E" "caller_loop c"
  shows "\<exists>P c'. qs = P @ [c'] \<and> list_all flowing P \<and> (\<exists>m. hd P = SeqLoop m) \<and> P \<noteq> []
    \<and> caller_loop c'"
  using assms
proof (induction rule: rtranclp_induct)
  case base
  then show ?case using endless_flowing [of E] by auto
next
  case (step a X)
  then obtain P c' where a: "a = P @ [c']" "list_all flowing P" "\<exists>m. hd P = SeqLoop m" "P \<noteq> []"
    "caller_loop c'" by blast
  from step.hyps(2) a(1) have "moves (P @ [c']) X" by simp
  then show ?case
  proof (cases rule: moves_append_cases)
    case (left P')
    then obtain i where i: "i < length P" "step i P = Some P'" by (auto simp: moves_def)
    from step_flowing [OF a(2) i(2) i(1)] a(3) step_length [OF i(2)] a(4) left(2) a(5)
    show ?thesis by auto
  next
    case (right T')
    with a(5) show ?thesis by (simp add: no_moves_single caller_loop_Recv)
  next
    case (sync P0 b v d T0)
    from sync(1) a(2) have fb: "flowing b" "list_all flowing P0" by auto
    have "\<exists>m. hd (P0 @ [after_send b]) = SeqLoop m"
    proof (cases P0)
      case Nil
      with sync(1) a(3) show ?thesis by auto
    next
      case (Cons p ps)
      with sync(1) a(3) show ?thesis by auto
    qed
    moreover from fb have "list_all flowing (P0 @ [after_send b])" by (simp add: flowing_facts)
    moreover from sync a(5) have "X = (P0 @ [after_send b]) @ [after_recv c' (Some v)]"
      "caller_loop (after_recv c' (Some v))" by (auto simp: caller_loop_after_recv)
    ultimately show ?thesis by blast
  next
    case (eof P0 b d T0)
    with a(2) show ?thesis by (auto simp: flowing_facts)
  qed
qed

lemma send_recv_pair:
  assumes "pending_op g = Send v" "pending_op (last (g # rest)) = Recv"
    and "\<forall>x \<in> set rest. pending_op x = Recv \<or> (\<exists>w. pending_op x = Send w)"
  shows "\<exists>X. moves (g # rest) X"
  using assms
proof (induction rest arbitrary: g v)
  case Nil
  then show ?case by simp
next
  case (Cons h rest)
  show ?case
  proof (cases "pending_op h = Recv")
    case True
    with Cons.prems(1) moves_sync [of g v h "[]" rest] show ?thesis by auto
  next
    case False
    with Cons.prems(3) obtain w where w: "pending_op h = Send w" by auto
    with Cons.prems Cons.IH [of h w] obtain X where "moves (h # rest) X" by auto
    from moves_append_right [OF this, of "[g]"] show ?thesis by auto
  qed
qed

lemma endless_never_returns:
  assumes "endless E" "caller_loop c"
  shows "outcome (exec sched (E @ [c])) = None \<and> \<not> quiescent (exec sched (E @ [c]))"
proof -
  from endless_invariant [OF exec_reaches assms]
  obtain P c' where q: "exec sched (E @ [c]) = P @ [c']" "list_all flowing P"
    "\<exists>m. hd P = SeqLoop m" "P \<noteq> []" "caller_loop c'" by blast
  then obtain m R where P: "P = SeqLoop m # R" by (cases P) auto
  from q(2) P have "\<forall>x \<in> set (R @ [c']). pending_op x = Recv \<or> (\<exists>w. pending_op x = Send w)"
    using q(5) by (auto simp: list_all_iff caller_loop_Recv dest: flowing_pending)
  moreover have "pending_op (last (SeqLoop m # R @ [c'])) = Recv"
    using q(5) by (simp add: caller_loop_Recv)
  ultimately obtain X where "moves (SeqLoop m # R @ [c']) X"
    using send_recv_pair [of "SeqLoop m" m "R @ [c']"] by auto
  with q(1) P have "\<not> quiescent (exec sched (E @ [c]))" by (auto simp: quiescent_no_moves)
  moreover from q(1,5) have "outcome (exec sched (E @ [c])) = None"
    by (simp add: outcome_def caller_loop_returned)
  ultimately show ?thesis by blast
qed

lemma behind_finite:
  assumes "returns (Collect_it S) (Slice xs)" "tail_gives T xs r"
  shows "returns (S @ T) r"
proof -
  from assms(1) obtain Z where Z: "ends_in (S @ [CollectLoop []]) Z" "outcome Z = Some (Slice xs)"
    by (auto simp: returns_def Collect_it_def)
  from Z(1) have q: "quiescent Z" by (rule ends_in_quiescent)
  from Z(1) have "moves\<^sup>*\<^sup>* (S @ [CollectLoop []]) Z" by (rule ends_in_reaches)
  then obtain n where "(moves ^^ n) (S @ [CollectLoop []]) Z" by (auto dest: rtranclp_imp_relpowp)
  from tail_simulation [OF this q, of xs T r] Z(2) assms(2)
  obtain Y where "moves\<^sup>*\<^sup>* (S @ T) Y" "quiescent Y" "outcome Y = Some r" by auto
  then show ?thesis by (rule returnsI)
qed

lemma tail_collect: "tail_gives [CollectLoop s] rest (Slice (s @ rest))"
proof (induction rest arbitrary: s)
  case Nil
  show ?case
    by (rule tail_gives.eof [where T' = "[CollectDone s]"])
      (simp_all add: quiescent_iff step_def outcome_def)
next
  case (Cons v rest)
  show ?case
    by (rule tail_gives.elem [where ?T1.0 = "[CollectLoop (s @ [v])]"])
      (use Cons [of "s @ [v]"] in simp_all)
qed

lemma tail_reduce: "tail_gives [ReduceLoop acc fn] rest (Value (foldl fn acc rest))"
proof (induction rest arbitrary: acc)
  case Nil
  show ?case
    by (rule tail_gives.eof [where T' = "[ReduceDone acc]"])
      (simp_all add: quiescent_iff step_def outcome_def)
next
  case (Cons v rest)
  show ?case
    by (rule tail_gives.elem [where ?T1.0 = "[ReduceLoop (fn acc v) fn]"])
      (use Cons [of "fn acc v"] in simp_all)
qed

lemma closing_tail: "moves\<^sup>*\<^sup>* [Closing, CollectLoop s] [Exited, CollectDone s]"
  by (rule close0, simp, rule eof1, simp, simp, simp)

lemma tail_closing: "tail_gives [Closing, CollectLoop s] rest (Slice s)"
  by (rule tail_gives.stop [OF closing_tail]) (simp_all add: outcome_def)

lemma tail_eof:
  "pending_op b = Recv \<Longrightarrow> after_recv b None = Closing \<Longrightarrow>
   tail_gives [b, CollectLoop s] [] (Slice s)"
  by (rule tail_gives.eof [where T' = "[Exited, CollectDone s]"])
    (simp_all add: closing_tail outcome_def)

lemma tail_map: "tail_gives [MapRecv fn, CollectLoop s] rest (Slice (s @ map fn rest))"
proof (induction rest arbitrary: s)
  case Nil
  show ?case by (simp add: tail_eof)
next
  case (Cons v rest)
  have "moves\<^sup>*\<^sup>* [MapSend fn (fn v), CollectLoop s] [MapRecv fn, CollectLoop (s @ [fn v])]"
    by (rule sync0) auto
  with Cons [of "s @ [fn v]"] show ?case
    by (intro tail_gives.elem [where ?T1.0 = "[MapRecv fn, CollectLoop (s @ [fn v])]"]) simp_all
qed

lemma tail_filter: "tail_gives [FilterRecv pred, CollectLoop s] rest (Slice (s @ filter pred rest))"
proof (induction rest arbitrary: s)
  case Nil
  show ?case by (simp add: tail_eof)
next
  case (Cons v rest)
  show ?case
  proof (cases "pred v")
    case True
    have "moves\<^sup>*\<^sup>* [FilterSend pred v, CollectLoop s] [FilterRecv pred, CollectLoop (s @ [v])]"
      by (rule sync0) auto
    with Cons [of "s @ [v]"] True show ?thesis
      by (intro tail_gives.elem [where ?T1.0 = "[FilterRecv pred, CollectLoop (s @ [v])]"]) simp_all
  next
    case False
    with Cons [of s] show ?thesis
      by (intro tail_gives.elem [where ?T1.0 = "[FilterRecv pred, CollectLoop s]"]) simp_all
  qed
qed

lemma tail_drop:
  "tail_gives [DropRecv count n, CollectLoop s] rest
     (Slice (s @ drop (nat (sint n - sint count)) rest))"
proof (induction rest arbitrary: count s)
  case Nil
  show ?case by (simp add: tail_eof)
next
  case (Cons v rest)
  show ?case
  proof (cases "count <s n")
    case True
    then have "nat (sint n - sint count) = Suc (nat (sint n - sint (count + 1)))"
      by (simp add: sint_succ) (simp add: word_sless_alt)
    with Cons [of "count + 1" s] True show ?thesis
      by (intro tail_gives.elem [where ?T1.0 = "[DropRecv (count + 1) n, CollectLoop s]"]) simp_all
  next
    case False
    then have "nat (sint n - sint count) = 0" by (simp add: word_sless_alt)
    moreover have "moves\<^sup>*\<^sup>* [DropSend count n v, CollectLoop s] [DropRecv count n, CollectLoop (s @ [v])]"
      by (rule sync0) auto
    ultimately show ?thesis using Cons [of count "s @ [v]"] False
      by (intro tail_gives.elem [where ?T1.0 = "[DropRecv count n, CollectLoop (s @ [v])]"]) simp_all
  qed
qed

lemma tail_take:
  "tail_gives [TakeRecv count n, CollectLoop s] rest
     (Slice (s @ take (nat (sint n - sint count)) rest))"
proof (induction rest arbitrary: count s)
  case Nil
  show ?case by (simp add: tail_eof)
next
  case (Cons v rest)
  show ?case
  proof (cases "count <s n")
    case True
    then have "nat (sint n - sint count) = Suc (nat (sint n - sint (count + 1)))"
      by (simp add: sint_succ) (simp add: word_sless_alt)
    moreover have "moves\<^sup>*\<^sup>* [TakeSend count n v, CollectLoop s] [TakeRecv (count + 1) n, CollectLoop (s @ [v])]"
      by (rule sync0) auto
    ultimately show ?thesis using Cons [of "count + 1" "s @ [v]"] True
      by (intro tail_gives.elem [where ?T1.0 = "[TakeRecv (count + 1) n, CollectLoop (s @ [v])]"]) simp_all
  next
    case False
    then have "nat (sint n - sint count) = 0" by (simp add: word_sless_alt)
    with False tail_closing [of s rest] show ?thesis
      by (intro tail_gives.elem [where ?T1.0 = "[Closing, CollectLoop s]"]) simp_all
  qed
qed

lemma finite_seq_collect: "returns (Collect_it (finite_seq xs)) (Slice xs)"
  using collect_run [of xs "[]"]
  by (auto intro!: returnsI simp: Collect_it_def finite_seq_def outcome_def)

lemma Range_it_collect:
  "returns (Collect_it (Range_it a b)) (Slice (map (\<lambda>j. a + of_nat j) [0..<nat (sint b - sint a)]))"
  using range_run [of "nat (sint b - sint a)" b a "[]"]
  by (auto intro!: returnsI simp: Collect_it_def Range_it_def outcome_def)

section \<open>The scenarios of \<open>main.go\<close>\<close>

text \<open>
  \<open>primes 5\<close> comes to rest with the goroutines of \<open>Seq\<close>, \<open>Drop\<close> and \<open>Filter\<close> blocked in
  their sends for good.
\<close>

lemma squares_20:
  "returns (squares 20)
     (Slice [1, 4, 9, 16, 25, 36, 49, 64, 81, 100, 121, 144, 169, 196, 225, 256, 289, 324, 361, 400])"
proof -
  have "run 60 (squares 20) = [Exited, Exited,
      CollectDone [1, 4, 9, 16, 25, 36, 49, 64, 81, 100, 121, 144, 169, 196, 225, 256, 289, 324, 361, 400]]"
    by code_simp
  with run_reaches [of "squares 20" 60] show ?thesis
    by (auto intro!: returnsI simp: outcome_def)
qed

lemma fac_10: "returns (fac 10) (Value 3628800)"
proof -
  have "run 60 (fac 10) = [Exited, ReduceDone 3628800]" by code_simp
  with run_reaches [of "fac 10" 60] show ?thesis
    by (auto intro!: returnsI simp: outcome_def)
qed

lemma primes_5: "returns (primes 5) (Slice [2, 3, 5, 7, 11])"
proof -
  have "outcome (run 200 (primes 5)) = Some (Slice [2, 3, 5, 7, 11])" by code_simp
  moreover have "quiescent (run 200 (primes 5))" by code_simp
  ultimately show ?thesis using run_reaches [of "primes 5" 200] by (blast intro: returnsI)
qed

section \<open>What the functions compute\<close>

text \<open>
  A finite sequence \<open>S\<close> with the elements \<open>xs\<close> is an \<open>Iter\<close> on which \<open>Collect\<close> returns
  \<open>xs\<close> under every schedule: \<open>returns (Collect_it S) (Slice xs)\<close>. \<open>finite_seq xs\<close> is one,
  \<open>Range_it a b\<close> is one, and so is every combinator applied to one.
\<close>

text \<open>
  C1. For every finite sequence \<open>S\<close> with the elements \<open>xs\<close> and every \<open>n\<close>, under every
  schedule \<open>S.Take(n).Collect()\<close> returns the first \<open>min n (length xs)\<close> elements of
  \<open>xs\<close> in order (none for a negative \<open>n\<close>); and \<open>Seq().Take(k).Collect()\<close> returns
  \<open>0, 1, ..., k - 1\<close>.
\<close>

theorem Take_Collect:
  "(returns (Collect_it S) (Slice xs) \<longrightarrow>
      returns (Collect_it (Take S n)) (Slice (take (min (nat (sint n)) (length xs)) xs)))
   \<and> returns (Collect_it (Take Seq k)) (Slice (map of_nat [0..<nat (sint k)]))
   \<and> map sint (map of_nat [0..<nat (sint k)] :: int64 list) = [0..sint k - 1]"
proof (intro conjI impI)
  assume "returns (Collect_it S) (Slice xs)"
  moreover have "take (min (nat (sint n)) (length xs)) xs = take (nat (sint n)) xs"
    by (simp add: min_def)
  ultimately show "returns (Collect_it (Take S n)) (Slice (take (min (nat (sint n)) (length xs)) xs))"
    using behind_finite [OF _ tail_take [of 0 n "[]" xs], of S]
    by (simp add: Collect_it_def Take_def)
next
  from seq_take_run [of "nat (sint k)" k 0 0 "[]"]
  show "returns (Collect_it (Take Seq k)) (Slice (map of_nat [0..<nat (sint k)]))"
    by (auto intro!: returnsI simp: Collect_it_def Take_def Seq_def outcome_def)
next
  from sint_range_elems [of 0 k]
  show "map sint (map of_nat [0..<nat (sint k)] :: int64 list) = [0..sint k - 1]"
    by simp
qed

theorem Take_Collect_witness:
  "returns (Collect_it (finite_seq [5, 6, 7])) (Slice [5, 6, 7])
   \<and> returns (Collect_it (Take (finite_seq [5, 6, 7]) 2)) (Slice [5, 6])
   \<and> returns (Collect_it (Take (finite_seq [5, 6, 7]) 4)) (Slice [5, 6, 7])
   \<and> returns (Collect_it (Take Seq 3)) (Slice [0, 1, 2])"
  using Take_Collect [of "finite_seq [5, 6, 7]" "[5, 6, 7]" 2 3]
    Take_Collect [of "finite_seq [5, 6, 7]" "[5, 6, 7]" 4 3] finite_seq_collect [of "[5, 6, 7]"]
  by (simp add: upt_rec)

text \<open>
  The goroutine of \<open>Take\<close> receives before it tests \<open>count < n\<close>. Under every schedule
  the sender of \<open>S\<close> has therefore handed over one element more than \<open>Take\<close> has emitted,
  if it had one.
\<close>

lemma Take_receives_one_more:
  "ends_in (Collect_it (Take (finite_seq xs) n))
     [leftover (drop (Suc (nat (sint n))) xs), Exited, CollectDone (take (nat (sint n)) xs)]"
  using take_run [of xs 0 n "[]"]
  by (auto intro!: schedule_ends_in simp: Collect_it_def Take_def finite_seq_def)

text \<open>
  C2. \<open>Range(1, 4).Take(0).Collect()\<close>: the output is closed with no element, and the
  goroutine of \<open>Range\<close> is left in its second send, with \<open>i = 2\<close>: \<open>Take\<close> has received
  the element \<open>1\<close> and dropped it.
\<close>

theorem Take_zero_receives_one:
  "run 4 (Collect_it (Take (Range_it 1 4) 0)) = [RangeLoop 2 4, Exited, CollectDone []]
   \<and> quiescent [RangeLoop 2 4, Exited, CollectDone []]"
  by code_simp

text \<open>
  C3. For every finite sequence \<open>S\<close> with the elements \<open>xs\<close>, under every schedule
  \<open>S.Reduce(init, fn)\<close> returns the left fold of \<open>fn\<close> over \<open>xs\<close> from \<open>init\<close>.
\<close>

theorem Reduce_foldl:
  assumes "returns (Collect_it S) (Slice xs)"
  shows "returns (Reduce S init fn) (Value (foldl fn init xs))"
  using behind_finite [OF assms tail_reduce [of init fn xs]]
  by (simp add: Reduce_def)

theorem Reduce_foldl_witness:
  "returns (Collect_it (finite_seq [1, 2, 3, 4])) (Slice [1, 2, 3, 4])
   \<and> returns (Reduce (finite_seq [1, 2, 3, 4]) 1 (\<lambda>acc cur. acc * cur)) (Value 24)"
  using Reduce_foldl [OF finite_seq_collect, of "[1, 2, 3, 4]" 1 "\<lambda>acc cur. acc * cur"]
    finite_seq_collect [of "[1, 2, 3, 4]"]
  by simp

text \<open>
  C4. For every finite sequence \<open>S\<close> with the elements \<open>xs\<close>, under every schedule
  \<open>S.Map(fn).Collect()\<close> returns \<open>fn\<close> applied to each element of \<open>xs\<close> in order: the
  same length, and \<open>fn (xs ! i)\<close> at position \<open>i\<close>.
\<close>

theorem Map_Collect:
  assumes "returns (Collect_it S) (Slice xs)"
  shows "returns (Collect_it (Map S fn)) (Slice (map fn xs))
   \<and> length (map fn xs) = length xs
   \<and> (\<forall>i<length xs. map fn xs ! i = fn (xs ! i))"
  using behind_finite [OF assms tail_map [of fn "[]" xs]]
  by (simp add: Collect_it_def Map_def)

theorem Map_Collect_witness:
  "returns (Collect_it (finite_seq [1, 2, 3])) (Slice [1, 2, 3])
   \<and> returns (Collect_it (Map (finite_seq [1, 2, 3]) (\<lambda>x. x * x))) (Slice [1, 4, 9])"
  using Map_Collect [OF finite_seq_collect, of "[1, 2, 3]" "\<lambda>x. x * x"]
    finite_seq_collect [of "[1, 2, 3]"]
  by simp

text \<open>
  C5. For every finite sequence \<open>S\<close> with the elements \<open>xs\<close>, under every schedule
  \<open>S.Filter(pred).Collect()\<close> returns the elements of \<open>xs\<close> that satisfy \<open>pred\<close>, in their
  order; there are at most \<open>length xs\<close> of them.
\<close>

theorem Filter_Collect:
  assumes "returns (Collect_it S) (Slice xs)"
  shows "returns (Collect_it (Filter S pred)) (Slice (filter pred xs))
   \<and> length (filter pred xs) \<le> length xs"
  using behind_finite [OF assms tail_filter [of pred "[]" xs]]
  by (simp add: Collect_it_def Filter_def)

theorem Filter_Collect_witness:
  "returns (Collect_it (finite_seq [1, 5, 2, 7])) (Slice [1, 5, 2, 7])
   \<and> returns (Collect_it (Filter (finite_seq [1, 5, 2, 7]) (\<lambda>x. 2 <s x))) (Slice [5, 7])"
  using Filter_Collect [OF finite_seq_collect, of "[1, 5, 2, 7]" "\<lambda>x. 2 <s x"]
    finite_seq_collect [of "[1, 5, 2, 7]"]
  by (simp add: word_sless_alt)

text \<open>
  C6. For every finite sequence \<open>S\<close> with the elements \<open>xs\<close> and every \<open>n\<close>, under every
  schedule \<open>S.Drop(n).Collect()\<close> returns \<open>xs\<close> without its first \<open>n\<close> elements, which are
  \<open>length xs - n\<close> elements (none if \<open>xs\<close> is shorter); for \<open>n \<le> 0\<close> it returns \<open>xs\<close>.
\<close>

theorem Drop_Collect:
  assumes "returns (Collect_it S) (Slice xs)"
  shows "returns (Collect_it (Drop S n)) (Slice (drop (nat (sint n)) xs))
   \<and> length (drop (nat (sint n)) xs) = length xs - nat (sint n)
   \<and> (n <=s 0 \<longrightarrow> returns (Collect_it (Drop S n)) (Slice xs))"
proof -
  from behind_finite [OF assms tail_drop [of 0 n "[]" xs]]
  have r: "returns (Collect_it (Drop S n)) (Slice (drop (nat (sint n)) xs))"
    by (simp add: Collect_it_def Drop_def)
  moreover have "n <=s 0 \<Longrightarrow> drop (nat (sint n)) xs = xs" by (simp add: word_sle_eq)
  ultimately show ?thesis by auto
qed

theorem Drop_Collect_witness:
  "returns (Collect_it (finite_seq [5, 6, 7])) (Slice [5, 6, 7])
   \<and> returns (Collect_it (Drop (finite_seq [5, 6, 7]) 2)) (Slice [7])
   \<and> returns (Collect_it (Drop (finite_seq [5, 6, 7]) 4)) (Slice [])
   \<and> returns (Collect_it (Drop (finite_seq [5, 6, 7]) (- 1))) (Slice [5, 6, 7])"
  using Drop_Collect [OF finite_seq_collect, of "[5, 6, 7]" 2]
    Drop_Collect [OF finite_seq_collect, of "[5, 6, 7]" 4]
    Drop_Collect [OF finite_seq_collect, of "[5, 6, 7]" "- 1"]
    finite_seq_collect [of "[5, 6, 7]"]
  by (simp add: word_sle_eq)

text \<open>
  C7. For all \<open>a\<close> and \<open>b\<close>, under every schedule the caller that collects \<open>Range(a, b)\<close>
  gets \<open>a, a + 1, ..., b - 1\<close> in increasing order and the goroutine of \<open>Range\<close> has
  closed its channel and returned; for \<open>b \<le> a\<close> there is no element.
\<close>

theorem Range_Collect:
  "ends_in (Collect_it (Range_it a b))
     [Exited, CollectDone (map (\<lambda>j. a + of_nat j) [0..<nat (sint b - sint a)])]
   \<and> map sint (map (\<lambda>j. a + of_nat j) [0..<nat (sint b - sint a)]) = [sint a..sint b - 1]
   \<and> (b <=s a \<longrightarrow> ends_in (Collect_it (Range_it a b)) [Exited, CollectDone []])"
proof -
  from range_run [of "nat (sint b - sint a)" b a "[]"]
  have e: "ends_in (Collect_it (Range_it a b))
     [Exited, CollectDone (map (\<lambda>j. a + of_nat j) [0..<nat (sint b - sint a)])]"
    by (auto intro!: schedule_ends_in simp: Collect_it_def Range_it_def)
  have "b <=s a \<Longrightarrow> nat (sint b - sint a) = 0" by (simp add: word_sle_eq)
  with e have "b <=s a \<longrightarrow> ends_in (Collect_it (Range_it a b)) [Exited, CollectDone []]"
    by auto
  with e sint_range_elems [of a b] show ?thesis by blast
qed

theorem Range_Collect_witness:
  "ends_in (Collect_it (Range_it 3 6)) [Exited, CollectDone [3, 4, 5]]
   \<and> ends_in (Collect_it (Range_it 6 3)) [Exited, CollectDone []]"
  using Range_Collect [of 3 6] Range_Collect [of 6 3]
  by (simp add: upt_rec word_sle_eq)

text \<open>
  C8. On a sequence that closes after finitely many elements \<open>Collect\<close> and \<open>Reduce\<close>
  return under every schedule, and \<open>Reduce\<close> returns wherever \<open>Collect\<close> does. On every
  sequence \<open>S\<close>, under every schedule, they return only after \<open>S\<close> has been closed; so on
  an \<open>S\<close> that never closes they never return. Such are \<open>Seq()\<close> and every \<open>Map\<close>,
  \<open>Filter\<close> and \<open>Drop\<close> of it: there the caller never returns, whatever the schedule and
  however long it is, and the pipeline never comes to rest either, so there is no
  deadlock for the runtime to report.
\<close>

theorem terminal_operations:
  "returns (Collect_it (finite_seq xs)) (Slice xs)
   \<and> returns (Reduce (finite_seq xs) init fn) (Value (foldl fn init xs))
   \<and> (returns (Collect_it S) (Slice ys) \<longrightarrow> (\<exists>r. returns (Reduce S init fn) r))
   \<and> (\<forall>sched. outcome (exec sched (Collect_it S)) \<noteq> None \<longrightarrow>
          closed_in S (exec sched (Collect_it S)))
   \<and> (\<forall>sched. outcome (exec sched (Reduce S init fn)) \<noteq> None \<longrightarrow>
          closed_in S (exec sched (Reduce S init fn)))
   \<and> ((\<forall>sched. \<not> closed_in S (exec sched (Collect_it S))) \<longrightarrow>
          (\<forall>sched. outcome (exec sched (Collect_it S)) = None))
   \<and> ((\<forall>sched. \<not> closed_in S (exec sched (Reduce S init fn))) \<longrightarrow>
          (\<forall>sched. outcome (exec sched (Reduce S init fn)) = None))
   \<and> (endless E \<longrightarrow>
          (\<forall>sched. outcome (exec sched (Collect_it E)) = None
             \<and> \<not> quiescent (exec sched (Collect_it E))))
   \<and> (endless E \<longrightarrow>
          (\<forall>sched. outcome (exec sched (Reduce E init fn)) = None
             \<and> \<not> quiescent (exec sched (Reduce E init fn))))
   \<and> (\<forall>sched. outcome (exec sched (Collect_it Seq)) = None
          \<and> \<not> quiescent (exec sched (Collect_it Seq)))
   \<and> (\<forall>sched. outcome (exec sched (Reduce Seq init fn)) = None
          \<and> \<not> quiescent (exec sched (Reduce Seq init fn)))"
proof -
  have fin: "returns (Collect_it (finite_seq xs)) (Slice xs)" by (rule finite_seq_collect)
  from behind_finite [OF finite_seq_collect tail_reduce [of init fn xs]]
  have red: "returns (Reduce (finite_seq xs) init fn) (Value (foldl fn init xs))"
    by (simp add: Reduce_def)
  have both: "returns (Collect_it S) (Slice ys) \<longrightarrow> (\<exists>r. returns (Reduce S init fn) r)"
  proof
    assume "returns (Collect_it S) (Slice ys)"
    from behind_finite [OF this tail_reduce [of init fn ys]]
    show "\<exists>r. returns (Reduce S init fn) r" by (auto simp: Reduce_def)
  qed
  have cc: "\<forall>sched. outcome (exec sched (Collect_it S)) \<noteq> None \<longrightarrow>
      closed_in S (exec sched (Collect_it S))"
    unfolding Collect_it_def
    using returns_only_after_close [OF exec_reaches, where c = "CollectLoop []" and S = S] by simp
  have cr: "\<forall>sched. outcome (exec sched (Reduce S init fn)) \<noteq> None \<longrightarrow>
      closed_in S (exec sched (Reduce S init fn))"
    unfolding Reduce_def
    using returns_only_after_close [OF exec_reaches, where c = "ReduceLoop init fn" and S = S] by simp
  have ec: "\<And>E. endless E \<Longrightarrow> \<forall>sched. outcome (exec sched (Collect_it E)) = None
      \<and> \<not> quiescent (exec sched (Collect_it E))"
    unfolding Collect_it_def using endless_never_returns [of _ "CollectLoop []"] by simp
  have er: "\<And>E. endless E \<Longrightarrow> \<forall>sched. outcome (exec sched (Reduce E init fn)) = None
      \<and> \<not> quiescent (exec sched (Reduce E init fn))"
    unfolding Reduce_def using endless_never_returns [of _ "ReduceLoop init fn"] by simp
  from cc have nc: "(\<forall>sched. \<not> closed_in S (exec sched (Collect_it S))) \<longrightarrow>
      (\<forall>sched. outcome (exec sched (Collect_it S)) = None)" by blast
  from cr have nr: "(\<forall>sched. \<not> closed_in S (exec sched (Reduce S init fn))) \<longrightarrow>
      (\<forall>sched. outcome (exec sched (Reduce S init fn)) = None)" by blast
  from ec [of E] have ecE: "endless E \<longrightarrow>
      (\<forall>sched. outcome (exec sched (Collect_it E)) = None
         \<and> \<not> quiescent (exec sched (Collect_it E)))" by blast
  from er [of E] have erE: "endless E \<longrightarrow>
      (\<forall>sched. outcome (exec sched (Reduce E init fn)) = None
         \<and> \<not> quiescent (exec sched (Reduce E init fn)))" by blast
  from fin red both cc cr nc nr ecE erE ec [OF endless.intros(1)] er [OF endless.intros(1)]
  show ?thesis by (intro conjI) assumption+
qed

theorem terminal_operations_witness:
  "returns (Collect_it (finite_seq [1, 2])) (Slice [1, 2])
   \<and> returns (Reduce (finite_seq [1, 2]) 0 (\<lambda>acc cur. acc + cur)) (Value 3)
   \<and> outcome (exec [0, 0, 0, 1] (Collect_it (finite_seq [1, 2]))) = Some (Slice [1, 2])
   \<and> closed_in (finite_seq [1, 2]) (exec [0, 0, 0, 1] (Collect_it (finite_seq [1, 2])))
   \<and> endless (Filter (Map Seq (\<lambda>x. x * x)) (\<lambda>x. 3 <s x))
   \<and> outcome (exec [0, 1, 0, 1, 2, 0] (Collect_it (Filter (Map Seq (\<lambda>x. x * x)) (\<lambda>x. 3 <s x)))) = None
   \<and> outcome (exec [0, 1, 0, 0, 1] (Collect_it Seq)) = None
   \<and> outcome (exec [0, 1, 0, 0, 1] (Reduce Seq 0 (\<lambda>acc cur. acc + cur))) = None"
proof -
  have o: "outcome (exec [0, 0, 0, 1] (Collect_it (finite_seq [1, 2]))) = Some (Slice [1, 2])"
    by (simp add: Collect_it_def finite_seq_def step_def outcome_def)
  have e: "endless (Filter (Map Seq (\<lambda>x. x * x)) (\<lambda>x. 3 <s x))"
    by (intro endless.intros)
  from terminal_operations [of "[1, 2]" 0 "\<lambda>acc cur. acc + cur" "finite_seq [1, 2]" "[1, 2]"
      "Filter (Map Seq (\<lambda>x. x * x)) (\<lambda>x. 3 <s x)"] o e
  show ?thesis by (auto simp del: exec.simps)
qed

text \<open>
  C9, as stated, fails at \<open>n = 1\<close>: \<open>isPrime(1)\<close> is true although \<open>1 > 1\<close> is not. The
  only caller, \<open>primes\<close>, passes \<open>Seq().Drop(2)\<close> and so never asks for \<open>0\<close> or \<open>1\<close>.
\<close>

theorem isPrime_one_counterexample: "isPrime 1 = Some True \<and> \<not> 1 < sint (1 :: int64)"
  by code_simp

text \<open>
  C9, amended. For every \<open>n\<close>, \<open>isPrime(n)\<close> returns true if and only if no \<open>d\<close> with
  \<open>2 \<le> d\<close> and \<open>d * d \<le> n\<close>, that is \<open>d\<close> in \<open>[2, floor (sqrt n)]\<close>, divides \<open>n\<close>; so it
  returns true for every \<open>n \<le> 1\<close>. Where \<open>i*i\<close> wraps around, for a prime \<open>n\<close> of at least
  \<open>3037000499\<^sup>2\<close>, the loop goes on until the wrapped \<open>i*i\<close> exceeds \<open>n\<close>, and still
  returns true.
\<close>

theorem isPrime_trial_division:
  "isPrime n = Some (\<forall>d. 2 \<le> d \<and> d * d \<le> sint n \<longrightarrow> \<not> d dvd sint n)"
proof (cases "\<exists>d. 2 \<le> d \<and> d * d \<le> sint n \<and> d dvd sint n")
  case True
  then obtain d where d: "2 \<le> d" "d * d \<le> sint n" "d dvd sint n" by blast
  then have "isPrime_loop n 2 = Some False"
    by (intro isPrime_loop_divisor [of _ d]) auto
  with True show ?thesis by (auto simp: isPrime_def)
next
  case False
  then have small: "\<forall>d. 2 \<le> d \<and> d * d \<le> sint n \<longrightarrow> \<not> d dvd sint n" by blast
  show ?thesis
  proof (cases "sint n < 3037000499 * 3037000499")
    case True
    then have "isPrime_loop n 2 = Some (\<forall>d. sint (2 :: int64) \<le> d \<and> d * d \<le> sint n \<longrightarrow> \<not> d dvd sint n)"
      by (intro isPrime_loop_small) auto
    then show ?thesis by (simp add: isPrime_def)
  next
    case big: False
    have "sint n < 2 ^ 63" using sint_lt [of n] by simp
    with False top_composite [of "sint n"] have top: "sint n < 9223372036854775801"
      by fastforce
    from small have "\<forall>e. 2 \<le> e \<and> e < sint n \<longrightarrow> \<not> e dvd sint n"
      using no_proper_divisor [of "sint n"] by blast
    moreover from top have "\<not> (2759374635167858507 :: int64) * 2759374635167858507 <=s n"
      by (simp only: word_sle_eq wrapped_square)
    moreover from big have "sint (2759374635167858507 :: int64) < sint n" by simp
    ultimately have "isPrime_loop n 2 = Some True"
      by (intro isPrime_loop_prime [of _ 2759374635167858507 2]) auto
    with small show ?thesis by (simp add: isPrime_def)
  qed
qed

theorem isPrime_trial_division_witness:
  "isPrime 7 = Some (\<forall>d::int. 2 \<le> d \<and> d * d \<le> 7 \<longrightarrow> \<not> d dvd 7)
   \<and> isPrime 7 = Some True
   \<and> isPrime 0 = Some (\<forall>d::int. 2 \<le> d \<and> d * d \<le> 0 \<longrightarrow> \<not> d dvd 0)
   \<and> isPrime 0 = Some True"
proof -
  have "isPrime 7 = Some True" "isPrime 0 = Some True" by code_simp+
  with isPrime_trial_division [of 7] isPrime_trial_division [of 0] show ?thesis by simp
qed

text \<open>
  C10. Whatever two schedules do with the same pipeline, if the caller has returned in
  both, it has returned the same value; and once one schedule has let the caller return
  \<open>r\<close>, every other schedule can be carried on until the caller has returned \<open>r\<close>.
\<close>

theorem schedule_independent:
  assumes "outcome (exec sched ps) = Some r"
  shows "(outcome (exec sched' ps) = Some r' \<longrightarrow> r' = r)
    \<and> (\<exists>more. outcome (exec (sched' @ more) ps) = Some r)"
proof
  from assms exec_reaches [of ps sched] exec_reaches [of ps sched']
  show "outcome (exec sched' ps) = Some r' \<longrightarrow> r' = r"
    by (blast dest: outcome_deterministic)
next
  from moves_confluent [OF exec_reaches [of ps sched] exec_reaches [of ps sched']]
  obtain d where d: "moves\<^sup>*\<^sup>* (exec sched ps) d" "moves\<^sup>*\<^sup>* (exec sched' ps) d" by blast
  from d(1) assms have "outcome d = Some r" by (rule reaches_keeps_outcome)
  moreover from reaches_exec [OF d(2)] obtain more where "exec more (exec sched' ps) = d" by blast
  ultimately have "outcome (exec (sched' @ more) ps) = Some r" by (simp add: exec_append)
  then show "\<exists>more. outcome (exec (sched' @ more) ps) = Some r" by blast
qed

theorem schedule_independent_witness:
  "outcome (exec [0, 1, 2, 0, 1, 2, 3] (Collect_it (Take (Map Seq (\<lambda>x. x + 5)) 1))) = Some (Slice [5])
   \<and> outcome (exec [0, 1, 0, 2, 1, 0, 2, 3] (Collect_it (Take (Map Seq (\<lambda>x. x + 5)) 1))) = Some (Slice [5])
   \<and> exec [0, 1, 2, 0, 1, 2, 3] (Collect_it (Take (Map Seq (\<lambda>x. x + 5)) 1)) \<noteq>
      exec [0, 1, 0, 2, 1, 0, 2, 3] (Collect_it (Take (Map Seq (\<lambda>x. x + 5)) 1))
   \<and> (\<exists>more. outcome (exec ([0, 1, 0] @ more) (Collect_it (Take (Map Seq (\<lambda>x. x + 5)) 1)))
         = Some (Slice [5]))"
proof -
  have a: "outcome (exec [0, 1, 2, 0, 1, 2, 3] (Collect_it (Take (Map Seq (\<lambda>x. x + 5)) 1))) = Some (Slice [5])"
    by (simp add: Collect_it_def Take_def Map_def Seq_def step_def outcome_def word_sless_alt)
  have b: "outcome (exec [0, 1, 0, 2, 1, 0, 2, 3] (Collect_it (Take (Map Seq (\<lambda>x. x + 5)) 1))) = Some (Slice [5])"
    by (simp add: Collect_it_def Take_def Map_def Seq_def step_def outcome_def word_sless_alt)
  have c: "exec [0, 1, 2, 0, 1, 2, 3] (Collect_it (Take (Map Seq (\<lambda>x. x + 5)) 1)) \<noteq>
      exec [0, 1, 0, 2, 1, 0, 2, 3] (Collect_it (Take (Map Seq (\<lambda>x. x + 5)) 1))"
    by (simp add: Collect_it_def Take_def Map_def Seq_def step_def outcome_def word_sless_alt)
  from schedule_independent [OF a, of "[0, 1, 0]"] a b c show ?thesis by blast
qed

end
